theory Spec2Isabelle
  imports Main "HOL-Library.Word"
begin

unbundle bit_operations_syntax

chapter \<open>TODOKANAI: encrypted block store and log-structured keyed map\<close>

type_synonym u8 = "8 word"
type_synonym u32 = "32 word"
type_synonym u64 = "64 word"

section \<open>Free-space index (\<open>ssdb::free_space\<close>, ssdb.cpp)\<close>

text \<open>
  \<open>m_free\<close> is a \<open>std::map<uint32_t, uint32_t>\<close> from the first block of a free
  interval to its length. The model is the list of its entries in iteration order, that
  is, by increasing key with no key twice. The operations of \<open>std::map\<close> the code uses
  are written on that list: \<open>emplace\<close> leaves an existing key alone, an iterator is the
  key it points to, \<open>it--\<close> and \<open>it++\<close> are the entries next below and next above.
\<close>

type_synonym free_map = "(u32 \<times> u32) list"

definition map_lower :: "u32 \<Rightarrow> free_map \<Rightarrow> free_map" where
  "map_lower k m = filter (\<lambda>e. fst e < k) m"

definition map_upper :: "u32 \<Rightarrow> free_map \<Rightarrow> free_map" where
  "map_upper k m = filter (\<lambda>e. k < fst e) m"

definition map_emplace :: "u32 \<Rightarrow> u32 \<Rightarrow> free_map \<Rightarrow> free_map" where
  "map_emplace k v m =
     (case map_of m k of
        Some _ \<Rightarrow> m
      | None \<Rightarrow> map_lower k m @ [(k, v)] @ map_upper k m)"

definition map_at :: "free_map \<Rightarrow> u32 \<Rightarrow> u32" where
  "map_at m k = (case map_of m k of Some v \<Rightarrow> v | None \<Rightarrow> 0)"

definition map_assign :: "u32 \<Rightarrow> u32 \<Rightarrow> free_map \<Rightarrow> free_map" where
  "map_assign k v m = map (\<lambda>e. if fst e = k then (k, v) else e) m"

definition map_erase :: "u32 \<Rightarrow> free_map \<Rightarrow> free_map" where
  "map_erase k m = filter (\<lambda>e. fst e \<noteq> k) m"

definition map_prev :: "u32 \<Rightarrow> free_map \<Rightarrow> (u32 \<times> u32) option" where
  "map_prev k m = (case rev (map_lower k m) of [] \<Rightarrow> None | e # _ \<Rightarrow> Some e)"

definition map_next :: "u32 \<Rightarrow> free_map \<Rightarrow> (u32 \<times> u32) option" where
  "map_next k m = (case map_upper k m of [] \<Rightarrow> None | e # _ \<Rightarrow> Some e)"

text \<open>
  \<open>add_free(block, count)\<close>. All arithmetic is on \<open>uint32_t\<close> and wraps; the overflow
  check replaces the length by \<open>UINT32_MAX - block\<close>. The two blocks of the source that
  check the previous and the next entry are \<open>merge_prev\<close> and \<open>merge_next\<close>;
  \<open>merge_prev\<close> returns the map together with the entry \<open>it\<close> points to afterwards.
\<close>

definition merge_prev :: "u32 \<Rightarrow> u32 \<Rightarrow> free_map \<Rightarrow> free_map \<times> u32 \<times> u32" where
  "merge_prev block s3 m2 =
     (case map_prev block m2 of
        None \<Rightarrow> (m2, block, s3)
      | Some (pk, ps) \<Rightarrow>
          if block \<le> pk + ps
          then let ps' = ps + (s3 - (pk + ps - block))
               in (map_erase block (map_assign pk ps' m2), pk, ps')
          else (m2, block, s3))"

definition merge_next :: "u32 \<Rightarrow> u32 \<Rightarrow> free_map \<Rightarrow> free_map" where
  "merge_next itk its m3 =
     (case map_next itk m3 of
        None \<Rightarrow> m3
      | Some (nk, ns) \<Rightarrow>
          if nk \<le> itk + its
          then map_erase nk (map_assign itk (its + (ns - (itk + its - nk))) m3)
          else m3)"

definition add_free :: "u32 \<Rightarrow> u32 \<Rightarrow> free_map \<Rightarrow> free_map" where
  "add_free block count m =
     (if count = 0 then m
      else
        let m1 = map_emplace block count m;
            s1 = map_at m1 block;
            s2 = (if s1 < count then count else s1);
            s3 = (if s2 + block < block then (- 1) - block else s2);
            m2 = map_assign block s3 m1;
            (m3, itk, its) = merge_prev block s3 m2
        in merge_next itk its m3)"


text \<open>
  The search loop of \<open>get_free\<close>: \<open>res\<close> is the best entry so far (\<open>None\<close> for
  \<open>cend()\<close>); an exact fit ends the loop.
\<close>

fun find_fit :: "u32 \<Rightarrow> free_map \<Rightarrow> (u32 \<times> u32) option \<Rightarrow> (u32 \<times> u32) option" where
  "find_fit count [] res = res"
| "find_fit count ((a, l) # m) res =
     (if count \<le> l \<and> (case res of None \<Rightarrow> True | Some (_, rl) \<Rightarrow> l < rl)
      then (if l = count then Some (a, l) else find_fit count m (Some (a, l)))
      else find_fit count m res)"

datatype error = bad_alloc

definition get_free :: "u32 \<Rightarrow> free_map \<Rightarrow> error + (u32 \<times> free_map)" where
  "get_free count m =
     (case find_fit count m None of
        None \<Rightarrow>
          if m = []
          then Inr (0, if count \<noteq> 0 then map_emplace count (0 - count) m else m)
          else Inl bad_alloc
      | Some (pos, len) \<Rightarrow>
          let diff = len - count
          in if diff \<noteq> 0
             then Inr (pos, map_emplace (pos + count) diff (map_erase pos m))
             else let m1 = map_erase pos m
                  in Inr (pos, if m1 = [] then map_emplace 0 0 m1 else m1))"

subsection \<open>Invariants of the free-space index\<close>

text \<open>
  An entry \<open>(a, l)\<close> stands for the blocks \<open>a, ..., a + l - 1\<close>; \<open>interval_end\<close> is
  \<open>a + l\<close> as a natural number, without wrap-around. \<open>fs_disjoint\<close> is the data
  model's invariant: entries ordered by start, no two overlapping, none reaching past
  \<open>2^32\<close>. \<open>fs_separated\<close> says that every entry ends strictly before the next one
  starts (neither overlapping nor abutting); \<open>fs_wf\<close> adds that no entry reaches past
  block \<open>2^32 - 2\<close>, which is what the clamp of \<open>add_free\<close> establishes.
\<close>

definition interval_end :: "u32 \<times> u32 \<Rightarrow> nat" where
  "interval_end e = unat (fst e) + unat (snd e)"

definition fs_disjoint :: "free_map \<Rightarrow> bool" where
  "fs_disjoint m \<longleftrightarrow>
     sorted_wrt (\<lambda>e f. fst e < fst f \<and> interval_end e \<le> unat (fst f)) m \<and>
     list_all (\<lambda>e. interval_end e \<le> 2 ^ 32) m"


definition fs_separated :: "free_map \<Rightarrow> bool" where
  "fs_separated m \<longleftrightarrow> sorted_wrt (\<lambda>e f. interval_end e < unat (fst f)) m"

definition fs_wf :: "free_map \<Rightarrow> bool" where
  "fs_wf m \<longleftrightarrow> fs_separated m \<and> list_all (\<lambda>e. interval_end e < 2 ^ 32) m"


subsection \<open>Lemmas on the ordered map\<close>


lemma find_fit_Some:
  assumes "find_fit count m res = Some (p, l)"
    and "case res of None \<Rightarrow> True | Some (rp, rl) \<Rightarrow> count \<le> rl"
  shows "count \<le> l \<and> (\<forall>e\<in>set m. count \<le> snd e \<longrightarrow> l \<le> snd e) \<and>
         (case res of None \<Rightarrow> True | Some (rp, rl) \<Rightarrow> l \<le> rl) \<and>
         ((p, l) \<in> set m \<or> res = Some (p, l))"
  using assms
proof (induction count m res rule: find_fit.induct)
  case (1 count res)
  then show ?case by (auto split: option.splits)
next
  case (2 count a l' m res)
  then show ?case
    by (fastforce split: option.splits if_splits)
qed

lemma keys_split:
  assumes "sorted_wrt (\<lambda>e f. fst e < fst f) m" and "(p, l) \<in> set m"
  shows "m = map_lower p m @ [(p, l)] @ map_upper p m"
  using assms
proof (induction m)
  case Nil
  then show ?case by simp
next
  case (Cons e m)
  show ?case
  proof (cases "e = (p, l)")
    case True
    have "\<forall>f\<in>set m. p < fst f" using Cons.prems(1) True by auto
    then have "filter (\<lambda>e. fst e < p) m = []" "filter (\<lambda>e. p < fst e) m = m"
      by (auto simp: filter_empty_conv filter_id_conv)
    then show ?thesis using True by (simp add: map_lower_def map_upper_def)
  next
    case False
    then have in_m: "(p, l) \<in> set m" using Cons.prems(2) by auto
    then have "fst e < p" using Cons.prems(1) by auto
    moreover have "m = map_lower p m @ [(p, l)] @ map_upper p m"
      using Cons.IH Cons.prems(1) in_m by simp
    ultimately show ?thesis by (simp add: map_lower_def map_upper_def)
  qed
qed


lemma keys_of_disjoint:
  "fs_disjoint m \<Longrightarrow> sorted_wrt (\<lambda>e f. fst e < fst f) m"
  unfolding fs_disjoint_def
  by (erule conjE, erule sorted_wrt_mono_rel [rotated]) simp

lemma map_lower_upper_sets:
  "\<forall>e\<in>set (map_lower p m). fst e < p" "\<forall>e\<in>set (map_upper p m). p < fst e"
  by (auto simp: map_lower_def map_upper_def)

lemma map_erase_between:
  assumes "\<forall>e\<in>set L. fst e < p" and "\<forall>e\<in>set R. p < fst e"
  shows "map_erase p (L @ [(p, l)] @ R) = L @ R"
proof -
  have "filter (\<lambda>e. fst e \<noteq> p) L = L" "filter (\<lambda>e. fst e \<noteq> p) R = R"
    using assms by (auto simp: filter_id_conv)
  then show ?thesis by (simp add: map_erase_def)
qed


lemma map_emplace_between:
  assumes "\<forall>e\<in>set L. fst e < k" and "\<forall>e\<in>set R. k < fst e"
  shows "map_emplace k v (L @ R) = L @ [(k, v)] @ R"
proof -
  have none: "map_of (L @ R) k = None"
    using assms by (force simp: map_of_eq_None_iff)
  have "filter (\<lambda>e. fst e < k) L = L" "filter (\<lambda>e. fst e < k) R = []"
    "filter (\<lambda>e. k < fst e) L = []" "filter (\<lambda>e. k < fst e) R = R"
    using assms by (auto simp: filter_id_conv filter_empty_conv)
  then show ?thesis
    unfolding map_emplace_def none by (simp add: map_lower_def map_upper_def)
qed







subsection \<open>Where \<open>add_free\<close> keeps the intervals separated\<close>

lemma merge_len:
  fixes a la b lb :: u32
  assumes "a < b" and "unat b + unat lb < 2 ^ 32"
  shows "unat a + unat (la + (lb - (a + la - b))) = unat b + unat lb"
proof -
  have eq: "la + (lb - (a + la - b)) = b + lb - a" by simp
  have sum: "unat (b + lb) = unat b + unat lb"
    using assms(2) by (simp add: unat_add_lem [THEN iffD1])
  have "unat a < unat b" using assms(1) by (simp add: word_less_nat_alt)
  then have "a \<le> b + lb" using sum by (simp add: word_le_nat_alt)
  then have "unat (b + lb - a) = unat (b + lb) - unat a" by (rule unat_sub)
  moreover have "unat (la + (lb - (a + la - b))) = unat (b + lb - a)"
    using eq by (rule arg_cong)
  ultimately show ?thesis using sum \<open>unat a < unat b\<close> by linarith
qed

lemma clamp_len:
  fixes block s2 :: u32
  shows "unat block + unat (if s2 + block < block then (- 1) - block else s2) < 2 ^ 32"
proof (cases "s2 + block < block")
  case True
  have "unat ((- 1) - block :: u32) = unat (- 1 :: u32) - unat block"
    by (rule unat_sub) simp
  then have "unat ((- 1) - block :: u32) = 2 ^ 32 - 1 - unat block"
    by (simp add: unsigned_minus_1_eq_mask mask_eq_exp_minus_1)
  moreover have "unat block < 2 ^ 32" using unsigned_less [of block, where 'a = nat] by simp
  ultimately show ?thesis using True by simp
next
  case False
  then have "block \<le> block + s2" by (simp add: add.commute not_less)
  then have "unat block + unat s2 < 2 ^ 32"
    using no_plus_overflow_unat_size [of block s2] by (simp add: word_size)
  then show ?thesis using False by simp
qed

lemma word_le_sum:
  fixes a la b :: u32
  assumes "unat a + unat la < 2 ^ 32"
  shows "b \<le> a + la \<longleftrightarrow> unat b \<le> unat a + unat la"
  using assms by (simp add: word_le_nat_alt unat_add_lem [THEN iffD1])

lemma shape_lower:
  assumes "\<forall>a\<in>set A. fst a < k" and "\<forall>b\<in>set B. k < fst b"
  shows "map_lower k (A @ [(k, v)] @ B) = A"
proof -
  have "filter (\<lambda>e. fst e < k) A = A" "filter (\<lambda>e. fst e < k) B = []"
    using assms by (auto simp: filter_id_conv filter_empty_conv)
  then show ?thesis by (simp add: map_lower_def)
qed

lemma shape_upper:
  assumes "\<forall>a\<in>set A. fst a < k" and "\<forall>b\<in>set B. k < fst b"
  shows "map_upper k (A @ [(k, v)] @ B) = B"
proof -
  have "filter (\<lambda>e. k < fst e) A = []" "filter (\<lambda>e. k < fst e) B = B"
    using assms by (auto simp: filter_id_conv filter_empty_conv)
  then show ?thesis by (simp add: map_upper_def)
qed

lemma shape_assign:
  assumes "\<forall>a\<in>set A. fst a < k" and "\<forall>b\<in>set B. k < fst b"
  shows "map_assign k v' (A @ [(k, v)] @ B) = A @ [(k, v')] @ B"
proof -
  have "map (\<lambda>e. if fst e = k then (k, v') else e) A = A"
    "map (\<lambda>e. if fst e = k then (k, v') else e) B = B"
    using assms by (auto intro!: map_idI)
  then show ?thesis by (simp add: map_assign_def)
qed

lemma shape_at:
  assumes "\<forall>a\<in>set A. fst a < k"
  shows "map_at (A @ [(k, v)] @ B) k = v"
proof -
  have "map_of A k = None" using assms by (force simp: map_of_eq_None_iff)
  then show ?thesis by (simp add: map_at_def map_add_def)
qed

lemma shape_prev:
  assumes "\<forall>a\<in>set A. fst a < k" and "\<forall>b\<in>set B. k < fst b"
  shows "map_prev k (A @ [(k, v)] @ B) = (if A = [] then None else Some (last A))"
  unfolding map_prev_def shape_lower [OF assms]
  by (cases A rule: rev_cases) simp_all

lemma shape_next:
  assumes "\<forall>a\<in>set A. fst a < k" and "\<forall>b\<in>set B. k < fst b"
  shows "map_next k (A @ [(k, v)] @ B) = (case B of [] \<Rightarrow> None | b # _ \<Rightarrow> Some b)"
  unfolding map_next_def shape_upper [OF assms] ..

lemma keys_split_absent:
  assumes "sorted_wrt (\<lambda>e f. fst e < fst f) m" and "k \<notin> fst ` set m"
  shows "m = map_lower k m @ map_upper k m"
  using assms
proof (induction m)
  case Nil
  then show ?case by (simp add: map_lower_def map_upper_def)
next
  case (Cons e m)
  then have IH: "m = map_lower k m @ map_upper k m" by simp
  show ?case
  proof (cases "fst e < k")
    case True
    then show ?thesis using IH by (simp add: map_lower_def map_upper_def)
  next
    case False
    then have "k < fst e" using Cons.prems(2) by auto
    then have "\<forall>f\<in>set m. k < fst f" using Cons.prems(1) by auto
    then have "filter (\<lambda>e. fst e < k) m = []" "filter (\<lambda>e. k < fst e) m = m"
      by (auto simp: filter_empty_conv filter_id_conv)
    then show ?thesis using \<open>k < fst e\<close> by (simp add: map_lower_def map_upper_def)
  qed
qed

lemma emplace_assign_shape:
  assumes "sorted_wrt (\<lambda>e f. fst e < fst f) m"
  shows "map_assign k v' (map_emplace k v m) = map_lower k m @ [(k, v')] @ map_upper k m"
    and "map_at (map_emplace k v m) k = (case map_of m k of None \<Rightarrow> v | Some v0 \<Rightarrow> v0)"
proof -
  have "map_emplace k v m =
      map_lower k m @ [(k, case map_of m k of None \<Rightarrow> v | Some v0 \<Rightarrow> v0)] @ map_upper k m"
  proof (cases "map_of m k")
    case None
    then show ?thesis by (simp add: map_emplace_def)
  next
    case (Some v0)
    then have "(k, v0) \<in> set m" by (rule map_of_SomeD)
    from keys_split [OF assms this] Some show ?thesis by (simp add: map_emplace_def)
  qed
  then show "map_assign k v' (map_emplace k v m) = map_lower k m @ [(k, v')] @ map_upper k m"
    and "map_at (map_emplace k v m) k = (case map_of m k of None \<Rightarrow> v | Some v0 \<Rightarrow> v0)"
    by (simp_all only: shape_assign [OF map_lower_upper_sets] shape_at [OF map_lower_upper_sets(1)])
qed

lemma fs_wf_append:
  "fs_wf (xs @ ys) \<longleftrightarrow>
     fs_wf xs \<and> fs_wf ys \<and> (\<forall>x\<in>set xs. \<forall>y\<in>set ys. interval_end x < unat (fst y))"
  by (auto simp: fs_wf_def fs_separated_def sorted_wrt_append)

lemma fs_wf_Cons:
  "fs_wf (e # ys) \<longleftrightarrow>
     interval_end e < 2 ^ 32 \<and> (\<forall>y\<in>set ys. interval_end e < unat (fst y)) \<and> fs_wf ys"
  by (auto simp: fs_wf_def fs_separated_def)

lemma fs_wf_Nil: "fs_wf []"
  by (simp add: fs_wf_def fs_separated_def)

lemma fs_wf_keys:
  assumes "fs_wf m"
  shows "sorted_wrt (\<lambda>e f. fst e < fst f) m"
proof -
  have "sorted_wrt (\<lambda>e f. interval_end e < unat (fst f)) m"
    using assms by (simp add: fs_wf_def fs_separated_def)
  then show ?thesis
    by (rule sorted_wrt_mono_rel [rotated]) (simp add: interval_end_def word_less_nat_alt)
qed

lemma fs_wf_filter: "fs_wf m \<Longrightarrow> fs_wf (filter P m)"
  by (simp add: fs_wf_def fs_separated_def sorted_wrt_filter list_all_iff)

lemma fs_wf_pairs:
  assumes "fs_wf m" and "x \<in> set m" and "y \<in> set m" and "fst x < fst y"
  shows "interval_end x < unat (fst y)"
  using assms
proof (induction m)
  case Nil
  then show ?case by simp
next
  case (Cons e m)
  from Cons.prems(1) have e: "\<forall>z\<in>set m. interval_end e < unat (fst z)" and m: "fs_wf m"
    by (simp_all add: fs_wf_Cons)
  show ?case
  proof (cases "x = e")
    case True
    then have "y \<in> set m" using Cons.prems(3,4) by auto
    then show ?thesis using e True by simp
  next
    case False
    then have x: "x \<in> set m" using Cons.prems(2) by simp
    show ?thesis
    proof (cases "y = e")
      case True
      then have "interval_end y < unat (fst x)" using e x by simp
      then have "unat (fst y) < unat (fst x)" by (simp add: interval_end_def)
      then show ?thesis using Cons.prems(4) by (simp add: word_less_nat_alt)
    next
      case False
      then have "y \<in> set m" using Cons.prems(3) by simp
      then show ?thesis using Cons.IH m x Cons.prems(4) by simp
    qed
  qed
qed

lemma merge_next_wf:
  assumes Ak: "\<forall>a\<in>set A. fst a < itk" and Rk: "\<forall>b\<in>set R. itk < fst b"
    and A: "fs_wf A" and R: "fs_wf R"
    and Ae: "\<forall>a\<in>set A. interval_end a < unat itk"
    and AR: "\<forall>a\<in>set A. \<forall>b\<in>set R. interval_end a < unat (fst b)"
    and e: "unat itk + unat its < 2 ^ 32"
  shows "fs_wf (merge_next itk its (A @ [(itk, its)] @ R))"
proof (cases R)
  case Nil
  then show ?thesis
    using A Ae e shape_next [OF Ak Rk]
    by (simp add: merge_next_def fs_wf_append fs_wf_Cons fs_wf_Nil interval_end_def)
next
  case (Cons n R')
  obtain nk ns where n: "n = (nk, ns)" by (cases n)
  have nxt: "map_next itk (A @ [(itk, its)] @ R) = Some (nk, ns)"
    using shape_next [OF Ak Rk] Cons n by simp
  have nk: "itk < nk" using Rk Cons n by simp
  have ne: "unat nk + unat ns < 2 ^ 32" and R': "fs_wf R'"
    and nR': "\<forall>y\<in>set R'. unat nk + unat ns < unat (fst y)"
    using R Cons n by (simp_all add: fs_wf_Cons interval_end_def)
  show ?thesis
  proof (cases "nk \<le> itk + its")
    case True
    let ?s = "its + (ns - (itk + its - nk))"
    have len: "unat itk + unat ?s = unat nk + unat ns"
      using nk ne by (rule merge_len)
    have "map_assign itk ?s (A @ [(itk, its)] @ R) = A @ [(itk, ?s)] @ R"
      using Ak Rk by (rule shape_assign)
    then have "map_assign itk ?s (A @ [(itk, its)] @ R) = (A @ [(itk, ?s)]) @ [(nk, ns)] @ R'"
      using Cons n by simp
    moreover have "map_erase nk ((A @ [(itk, ?s)]) @ [(nk, ns)] @ R') = (A @ [(itk, ?s)]) @ R'"
    proof (rule map_erase_between)
      show "\<forall>e\<in>set (A @ [(itk, ?s)]). fst e < nk" using Ak nk by auto
      show "\<forall>e\<in>set R'. nk < fst e"
        using nR' by (auto simp: word_less_nat_alt)
    qed
    ultimately have res: "merge_next itk its (A @ [(itk, its)] @ R) = A @ [(itk, ?s)] @ R'"
      using nxt True by (simp add: merge_next_def)
    have "fs_wf (A @ [(itk, ?s)] @ R')"
      using A R' Ae AR nR' ne len Cons
      by (simp add: fs_wf_append fs_wf_Cons interval_end_def)
    then show ?thesis using res by simp
  next
    case False
    then have "unat itk + unat its < unat nk"
      using word_le_sum [OF e, of nk] by simp
    moreover have "\<forall>y\<in>set R'. unat nk < unat (fst y)" using nR' by auto
    ultimately have "\<forall>y\<in>set R. unat itk + unat its < unat (fst y)"
      using Cons n by auto
    then have "fs_wf (A @ [(itk, its)] @ R)"
      using A R Ae AR e by (simp add: fs_wf_append fs_wf_Cons interval_end_def)
    then show ?thesis using nxt False by (simp add: merge_next_def)
  qed
qed

lemma merge_prev_shape:
  assumes Lk: "\<forall>a\<in>set L. fst a < block" and Rk: "\<forall>b\<in>set R. block < fst b"
    and L: "fs_wf L"
    and e: "unat block + unat s3 < 2 ^ 32"
  shows "\<exists>A itk its. merge_prev block s3 (L @ [(block, s3)] @ R) = (A @ [(itk, its)] @ R, itk, its) \<and>
           fs_wf A \<and> set A \<subseteq> set L \<and> itk \<le> block \<and>
           (\<forall>a\<in>set A. fst a < itk) \<and> (\<forall>a\<in>set A. interval_end a < unat itk) \<and>
           unat itk + unat its = unat block + unat s3"
proof (cases L rule: rev_cases)
  case Nil
  then have "merge_prev block s3 (L @ [(block, s3)] @ R) = ([] @ [(block, s3)] @ R, block, s3)"
    using shape_prev [OF Lk Rk] by (simp add: merge_prev_def)
  then show ?thesis using Nil by (intro exI [of _ "[]"] exI [of _ block] exI [of _ s3]) (simp add: fs_wf_Nil)
next
  case (snoc L' p)
  obtain pk ps where p: "p = (pk, ps)" by (cases p)
  have prv: "map_prev block (L @ [(block, s3)] @ R) = Some (pk, ps)"
    using shape_prev [OF Lk Rk] snoc p by simp
  have pk: "pk < block" using Lk snoc p by simp
  have L': "fs_wf L'" and pe: "unat pk + unat ps < 2 ^ 32"
    and L'p: "\<forall>a\<in>set L'. interval_end a < unat pk"
    using L snoc p by (simp_all add: fs_wf_append fs_wf_Cons interval_end_def)
  have L'k: "\<forall>a\<in>set L'. fst a < pk"
    using L'p by (auto simp: interval_end_def word_less_nat_alt)
  show ?thesis
  proof (cases "block \<le> pk + ps")
    case True
    let ?s = "ps + (s3 - (pk + ps - block))"
    have len: "unat pk + unat ?s = unat block + unat s3"
      using pk e by (rule merge_len)
    have "map_assign pk ?s (L' @ [(pk, ps)] @ ([(block, s3)] @ R)) = L' @ [(pk, ?s)] @ ([(block, s3)] @ R)"
    proof (rule shape_assign)
      show "\<forall>a\<in>set L'. fst a < pk" by (rule L'k)
      show "\<forall>b\<in>set ([(block, s3)] @ R). pk < fst b" using pk Rk by auto
    qed
    then have "map_assign pk ?s (L @ [(block, s3)] @ R) = (L' @ [(pk, ?s)]) @ [(block, s3)] @ R"
      using snoc p by simp
    moreover have "map_erase block ((L' @ [(pk, ?s)]) @ [(block, s3)] @ R) = (L' @ [(pk, ?s)]) @ R"
    proof (rule map_erase_between)
      show "\<forall>e\<in>set (L' @ [(pk, ?s)]). fst e < block" using Lk snoc pk by auto
      show "\<forall>e\<in>set R. block < fst e" by (rule Rk)
    qed
    ultimately have "merge_prev block s3 (L @ [(block, s3)] @ R) = (L' @ [(pk, ?s)] @ R, pk, ?s)"
      using prv True by (simp add: merge_prev_def Let_def)
    then show ?thesis
      using L' snoc pk L'k L'p len
      by (rule_tac exI [of _ L'], rule_tac exI [of _ pk], rule_tac exI [of _ ?s]) auto
  next
    case False
    then have "unat pk + unat ps < unat block"
      using word_le_sum [OF pe, of block] by simp
    then have "\<forall>a\<in>set L. interval_end a < unat block"
      using L'p pk snoc p by (auto simp: interval_end_def word_less_nat_alt)
    moreover have "merge_prev block s3 (L @ [(block, s3)] @ R) = (L @ [(block, s3)] @ R, block, s3)"
      using prv False by (simp add: merge_prev_def)
    ultimately show ?thesis
      using L Lk by (rule_tac exI [of _ L], rule_tac exI [of _ block], rule_tac exI [of _ s3]) auto
  qed
qed

text \<open>
  The clamp of \<open>add_free\<close> cuts a range to end at block \<open>2^32 - 2\<close>. Among maps whose
  intervals are separated (each ends strictly before the next starts) and none of which
  reaches past block \<open>2^32 - 2\<close>, the sums in the two merge checks do not wrap, and
  \<open>add_free\<close> leads from such a map to such a map. The interval that \<open>get_free\<close> leaves
  on the default state reaches block \<open>2^32 - 1\<close>, so no map of a new container's first
  session is among them.
\<close>

lemma add_free_preserves_wf:
  assumes wf: "fs_wf m"
  shows "fs_wf (add_free block count m)"
proof (cases "count = 0")
  case True
  then show ?thesis using wf by (simp add: add_free_def)
next
  case False
  let ?L = "map_lower block m" and ?R = "map_upper block m"
  define s1 where "s1 = map_at (map_emplace block count m) block"
  define s2 where "s2 = (if s1 < count then count else s1)"
  define s3 where "s3 = (if s2 + block < block then (- 1) - block else s2)"
  have keys: "sorted_wrt (\<lambda>e f. fst e < fst f) m" using wf by (rule fs_wf_keys)
  have m2: "map_assign block s3 (map_emplace block count m) = ?L @ [(block, s3)] @ ?R"
    using keys by (rule emplace_assign_shape(1))
  have e: "unat block + unat s3 < 2 ^ 32" unfolding s3_def by (rule clamp_len)
  have L: "fs_wf ?L" and R: "fs_wf ?R"
    using wf by (simp_all add: map_lower_def map_upper_def fs_wf_filter)
  have Lk: "\<forall>a\<in>set ?L. fst a < block" and Rk: "\<forall>b\<in>set ?R. block < fst b"
    by (rule map_lower_upper_sets)+
  from merge_prev_shape [OF Lk Rk L e] obtain A itk its
    where mp: "merge_prev block s3 (?L @ [(block, s3)] @ ?R) = (A @ [(itk, its)] @ ?R, itk, its)"
      and A: "fs_wf A" and sub: "set A \<subseteq> set ?L" and itk: "itk \<le> block"
      and Ak: "\<forall>a\<in>set A. fst a < itk" and Ae: "\<forall>a\<in>set A. interval_end a < unat itk"
      and len: "unat itk + unat its = unat block + unat s3"
    by blast
  have Rk': "\<forall>b\<in>set ?R. itk < fst b" using Rk itk by auto
  have AR: "\<forall>a\<in>set A. \<forall>b\<in>set ?R. interval_end a < unat (fst b)"
  proof (intro ballI)
    fix a b assume a: "a \<in> set A" and b: "b \<in> set ?R"
    have "a \<in> set m" "fst a < block" using a sub by (auto simp: map_lower_def)
    moreover have "b \<in> set m" "block < fst b" using b by (auto simp: map_upper_def)
    ultimately show "interval_end a < unat (fst b)"
      using fs_wf_pairs [OF wf, of a b] by auto
  qed
  have e': "unat itk + unat its < 2 ^ 32" using len e by simp
  have "fs_wf (merge_next itk its (A @ [(itk, its)] @ ?R))"
    using Ak Rk' A R Ae AR e' by (rule merge_next_wf)
  moreover have "add_free block count m = merge_next itk its (A @ [(itk, its)] @ ?R)"
    using False mp m2 unfolding add_free_def Let_def s1_def [symmetric] s2_def [symmetric] s3_def [symmetric]
    by simp
  ultimately show ?thesis by simp
qed

lemma add_free_preserves_wf_instance:
  "fs_wf [(0, 2), (5, 1)] \<and> add_free 2 3 [(0, 2), (5, 1)] = [(0, 6)] \<and>
   fs_wf (add_free 2 3 [(0, 2), (5, 1)])"
proof -
  have wf: "fs_wf [(0, 2), (5, 1)]"
    by (simp add: fs_wf_def fs_separated_def interval_end_def)
  have "add_free 2 3 [(0, 2), (5, 1)] = [(0, 6)]"
    by (simp add: add_free_def merge_prev_def merge_next_def map_emplace_def map_at_def
        map_assign_def map_erase_def map_prev_def map_next_def map_lower_def map_upper_def Let_def)
  then show ?thesis using wf add_free_preserves_wf [OF wf, of 2 3] by simp
qed

text \<open>
  The merge with the next entry adds the part of that entry that lies beyond the range.
  When the entry lies within the range the part is negative, and the range is cut back
  to the end of the entry.
\<close>

lemma add_free_cut_back:
  "add_free 2 10 [(5, 1)] = [(2, 4)]" "add_free 2 0xFFFFFFFF [(5, 1)] = [(2, 4)]"
  by (simp_all add: add_free_def merge_prev_def merge_next_def map_emplace_def map_at_def
      map_assign_def map_erase_def map_prev_def map_next_def map_lower_def map_upper_def Let_def)

text \<open>
  Claim C8. \<open>get_free(2)\<close> on the empty map leaves the single interval \<open>(2, 2^32 - 2)\<close>,
  whose end \<open>2^32\<close> is 0 in \<open>uint32_t\<close>. The check for the previous entry in \<open>add_free\<close>
  compares that 0 with the start of the range added, so a range that lies within the
  interval is not merged with it: after \<open>add_free(0xFFFFFFF0, 5)\<close> the map holds two
  intervals that have five blocks in common, and after \<open>add_free(0xFFFFFFFF, 1)\<close>, which
  is what \<open>finalize\<close> calls at the first flush of a new container, it holds an entry that
  starts inside the interval before it. Neither map has the intervals disjoint.
\<close>

theorem add_free_misses_merge:
  "get_free 2 [] = Inr (0, [(2, 0xFFFFFFFE)]) \<and> fs_disjoint [(2, 0xFFFFFFFE)] \<and>
   add_free 0xFFFFFFF0 5 [(2, 0xFFFFFFFE)] = [(2, 0xFFFFFFFE), (0xFFFFFFF0, 5)] \<and>
   \<not> fs_disjoint (add_free 0xFFFFFFF0 5 [(2, 0xFFFFFFFE)]) \<and>
   add_free 0xFFFFFFFF 1 [(2, 0xFFFFFFFE)] = [(2, 0xFFFFFFFE), (0xFFFFFFFF, 0)] \<and>
   \<not> fs_disjoint (add_free 0xFFFFFFFF 1 [(2, 0xFFFFFFFE)])"
proof -
  have m1: "(- 1 :: u32) = 0xFFFFFFFF" by simp
  have a: "add_free 0xFFFFFFF0 5 [(2, 0xFFFFFFFE)] = [(2, 0xFFFFFFFE), (0xFFFFFFF0, 5)]"
    by (simp add: add_free_def merge_prev_def merge_next_def map_emplace_def map_at_def
        map_assign_def map_erase_def map_prev_def map_next_def map_lower_def map_upper_def Let_def)
  have b: "add_free 0xFFFFFFFF 1 [(2, 0xFFFFFFFE)] = [(2, 0xFFFFFFFE), (0xFFFFFFFF, 0)]"
    by (simp add: add_free_def merge_prev_def merge_next_def map_emplace_def map_at_def
        map_assign_def map_erase_def map_prev_def map_next_def map_lower_def map_upper_def
        Let_def m1)
  have g: "get_free 2 [] = Inr (0, [(2, 0xFFFFFFFE)])"
    by (simp add: get_free_def map_emplace_def map_lower_def map_upper_def)
  have d: "fs_disjoint [(2, 0xFFFFFFFE)]"
    "\<not> fs_disjoint [(2, 0xFFFFFFFE), (0xFFFFFFF0, 5)]"
    "\<not> fs_disjoint [(2, 0xFFFFFFFE), (0xFFFFFFFF, 0)]"
    by (simp_all add: fs_disjoint_def interval_end_def)
  show ?thesis
    unfolding a b using g d by simp
qed


subsection \<open>Big-endian scalars\<close>

text \<open>
  \<open>std::be_t<uint64_t>\<close> keeps its value as eight bytes, most significant first.
  \<open>be_bytes n w\<close> are the low \<open>n\<close> bytes of \<open>w\<close> in that order, \<open>be_word\<close> reads
  such bytes back.
\<close>

type_synonym bytes = "u8 list"

fun be_bytes :: "nat \<Rightarrow> 'a::len word \<Rightarrow> bytes" where
  "be_bytes 0 w = []"
| "be_bytes (Suc n) w = be_bytes n (drop_bit 8 w) @ [ucast w]"

definition be_word :: "bytes \<Rightarrow> 'a::len word" where
  "be_word bs = foldl (\<lambda>acc b. push_bit 8 acc OR ucast b) 0 bs"

definition be64 :: "u64 \<Rightarrow> bytes" where
  "be64 w = be_bytes 8 w"


subsection \<open>The view\<close>

text \<open>
  A block of the file is 4096 bytes: a 16-byte nonce, 4064 bytes of ciphertext and the
  16-byte tag (\<open>sealed_block\<close>). AES-256-GCM is OpenSSL's, not this repository's: sealing
  and opening under the key of the view are the two functions of an \<open>aead\<close>, each
  \<open>None\<close> where the library reports failure. The additional authenticated data are the
  16 bytes of \<open>block_aad\<close>: container id and block index, both big-endian.

  The view's state is \<open>m_enc\<close> and \<open>m_dec\<close> (whether each cipher context was
  created), \<open>m_count\<close>, and the file, as the block stored at each byte offset. What the
  environment decides is part of the record: \<open>rand_bytes\<close> is the outcome of the
  \<open>RAND_bytes\<close> call and \<open>io_ok\<close> that of the seek and transfer, for the n-th call that
  reaches them; \<open>ticks\<close> counts these calls. The offset \<open>block * 4096\<close> is computed in
  64 bits and passed as a signed offset, which the seek refuses when negative
  (\<open>lseek_ok\<close>). A failed transfer leaves the modelled file as it was.
\<close>

record sealed_block =
  nonce :: bytes
  ciphertext :: bytes
  tag :: bytes

record aead =
  seal :: "bytes \<Rightarrow> bytes \<Rightarrow> bytes \<Rightarrow> (bytes \<times> bytes) option"
  unseal :: "bytes \<Rightarrow> bytes \<Rightarrow> bytes \<Rightarrow> bytes \<Rightarrow> bytes option"

record view =
  m_enc :: bool
  m_dec :: bool
  m_count :: u64
  m_file :: "u64 \<Rightarrow> sealed_block"
  rand_bytes :: "nat \<Rightarrow> bytes option"
  io_ok :: "nat \<Rightarrow> bool"
  ticks :: nat

definition aad_bytes :: "u64 \<Rightarrow> u64 \<Rightarrow> bytes" where
  "aad_bytes ident block = be64 ident @ be64 block"

definition lseek_ok :: "u64 \<Rightarrow> bool" where
  "lseek_ok off \<longleftrightarrow> off < 2 ^ 63"

definition read_block :: "aead \<Rightarrow> view \<Rightarrow> u64 \<Rightarrow> u64 \<Rightarrow> bytes option \<times> view" where
  "read_block cph v block ident =
     (if \<not> m_dec v \<or> m_count v \<le> block then (None, v)
      else
        let v1 = v\<lparr>ticks := Suc (ticks v)\<rparr>;
            off = block * 4096
        in if \<not> lseek_ok off \<or> \<not> io_ok v (ticks v) then (None, v1)
           else
             let fblock = m_file v off
             in (unseal cph (nonce fblock) (aad_bytes ident block)
                   (ciphertext fblock) (tag fblock), v1))"

definition write_block :: "aead \<Rightarrow> view \<Rightarrow> u64 \<Rightarrow> bytes \<Rightarrow> u64 \<Rightarrow> bool \<times> view" where
  "write_block cph v block buf ident =
     (if \<not> m_enc v \<or> m_count v < block then (False, v)
      else
        let v1 = v\<lparr>ticks := Suc (ticks v)\<rparr>
        in case rand_bytes v (ticks v) of
             None \<Rightarrow> (False, v1)
           | Some n \<Rightarrow>
               (case seal cph n (aad_bytes ident block) buf of
                  None \<Rightarrow> (False, v1)
                | Some (ct, tg) \<Rightarrow>
                    let off = block * 4096
                    in if \<not> lseek_ok off \<or> \<not> io_ok v (ticks v) then (False, v1)
                       else
                         let v2 = v1\<lparr>m_file := (m_file v1)
                                    (off := \<lparr>nonce = n, ciphertext = ct, tag = tg\<rparr>)\<rparr>
                         in (True, if block = m_count v then v2\<lparr>m_count := block + 1\<rparr>
                                   else v2)))"

text \<open>
  What the proofs below need of the cipher: opening what was sealed, under the same nonce
  and additional data, returns the plaintext; under other additional data it fails.
  \<open>plain_aead\<close> is a stand-in with both properties (it stores the plaintext and uses
  the additional data as the tag), used to run the model on concrete blocks.
\<close>

definition aead_correct :: "aead \<Rightarrow> bool" where
  "aead_correct cph \<longleftrightarrow>
     (\<forall>n a p ct tg. seal cph n a p = Some (ct, tg) \<longrightarrow> unseal cph n a ct tg = Some p)"

definition aead_binds_aad :: "aead \<Rightarrow> bool" where
  "aead_binds_aad cph \<longleftrightarrow>
     (\<forall>n a a' p ct tg. seal cph n a p = Some (ct, tg) \<longrightarrow> a' \<noteq> a \<longrightarrow>
        unseal cph n a' ct tg = None)"

definition plain_aead :: aead where
  "plain_aead =
     \<lparr>seal = (\<lambda>n a p. Some (p, a)),
      unseal = (\<lambda>n a ct tg. if tg = a then Some ct else None)\<rparr>"

definition empty_view :: view where
  "empty_view =
     \<lparr>m_enc = True, m_dec = True, m_count = 0,
      m_file = (\<lambda>_. \<lparr>nonce = [], ciphertext = [], tag = []\<rparr>),
      rand_bytes = (\<lambda>_. Some (replicate 16 0)), io_ok = (\<lambda>_. True), ticks = 0\<rparr>"

subsection \<open>Reading back what was written\<close>

lemma length_be_bytes [simp]: "length (be_bytes n w) = n"
  by (induction n arbitrary: w) simp_all

lemma be_word_snoc: "be_word (bs @ [b]) = push_bit 8 (be_word bs) OR ucast b"
  by (simp add: be_word_def)

lemma be_word_be_bytes: "be_word (be_bytes n w) = take_bit (8 * n) w"
proof (induction n arbitrary: w)
  case 0
  then show ?case by (simp add: be_word_def)
next
  case (Suc n)
  have "push_bit 8 (take_bit (8 * n) (drop_bit 8 w)) OR ucast (ucast w :: u8) = take_bit (8 * Suc n) w"
    by (rule bit_word_eqI) (auto simp: bit_simps)
  then show ?case by (simp add: be_word_snoc Suc)
qed

lemma be64_inverse: "(be_word (be64 w) :: u64) = w"
  by (simp add: be64_def be_word_be_bytes take_bit_word_eq_self del: be_bytes.simps)

lemma be64_inj: "be64 a = be64 b \<longleftrightarrow> a = b"
  by (metis be64_inverse)


lemma aad_bytes_inj: "aad_bytes c i = aad_bytes c' i' \<longleftrightarrow> c = c' \<and> i = i'"
  by (simp add: aad_bytes_def be64_def be64_inj [unfolded be64_def] del: be_bytes.simps)

lemma write_block_success:
  assumes "write_block cph v i P c = (True, v')"
  shows "\<exists>n ct tg. rand_bytes v (ticks v) = Some n \<and> seal cph n (aad_bytes c i) P = Some (ct, tg) \<and>
           m_enc v \<and> i \<le> m_count v \<and> lseek_ok (i * 4096) \<and> io_ok v (ticks v) \<and>
           v' = v\<lparr>ticks := Suc (ticks v),
                  m_file := (m_file v)(i * 4096 := \<lparr>nonce = n, ciphertext = ct, tag = tg\<rparr>),
                  m_count := (if i = m_count v then i + 1 else m_count v)\<rparr>"
  using assms
  by (auto simp: write_block_def Let_def not_less split: if_splits option.splits prod.splits)

lemma plain_aead_ok: "aead_correct plain_aead" "aead_binds_aad plain_aead"
  by (auto simp: aead_correct_def aead_binds_aad_def plain_aead_def)

text \<open>
  Claim C3. With a cipher that opens what it sealed and authenticates the additional
  data, and a block count below \<open>2^64 - 1\<close>: \<open>write_block(i, P, c)\<close> fails when
  \<open>i > count\<close>; \<open>read_block(i, c)\<close> fails when \<open>i \<ge> count\<close>; and after a successful
  \<open>write_block(i, P, c)\<close> the count has grown by exactly one if \<open>i = count\<close> and is
  unchanged otherwise, \<open>read_block(i, c)\<close> returns \<open>P\<close> (given the decryption context and
  a successful transfer), and \<open>read_block(i, c')\<close> fails for every \<open>c' \<noteq> c\<close>.
\<close>

theorem block_round_trip:
  assumes ok: "aead_correct cph" and bind: "aead_binds_aad cph" and cnt: "m_count v \<noteq> - 1"
  shows "(m_count v < i \<longrightarrow> fst (write_block cph v i P c) = False) \<and>
         (m_count v \<le> i \<longrightarrow> fst (read_block cph v i c) = None) \<and>
         (\<forall>v'. write_block cph v i P c = (True, v') \<longrightarrow>
            (i = m_count v \<longrightarrow> m_count v' = m_count v + 1 \<and>
                                unat (m_count v') = unat (m_count v) + 1) \<and>
            (i \<noteq> m_count v \<longrightarrow> m_count v' = m_count v) \<and>
            (m_dec v \<and> io_ok v' (ticks v') \<longrightarrow> fst (read_block cph v' i c) = Some P) \<and>
            (\<forall>c'. c' \<noteq> c \<longrightarrow> fst (read_block cph v' i c') = None))"
proof (intro conjI allI impI)
  assume "m_count v < i"
  then show "fst (write_block cph v i P c) = False" by (simp add: write_block_def)
next
  assume "m_count v \<le> i"
  then show "fst (read_block cph v i c) = None" by (simp add: read_block_def)
next
  fix v' assume w: "write_block cph v i P c = (True, v')"
  from write_block_success [OF w] obtain n ct tg
    where sl: "seal cph n (aad_bytes c i) P = Some (ct, tg)"
      and le: "i \<le> m_count v" and seek: "lseek_ok (i * 4096)"
      and v': "v' = v\<lparr>ticks := Suc (ticks v),
                  m_file := (m_file v)(i * 4096 := \<lparr>nonce = n, ciphertext = ct, tag = tg\<rparr>),
                  m_count := (if i = m_count v then i + 1 else m_count v)\<rparr>"
    by blast
  have inc: "unat (m_count v + 1) = unat (m_count v) + 1"
  proof -
    have "1 + m_count v \<noteq> 0" using cnt by (simp add: eq_neg_iff_add_eq_0 add.commute)
    then have "unat (1 + m_count v) = Suc (unat (m_count v))" by (rule unatSuc)
    then show ?thesis by (simp add: add.commute)
  qed
  have lt: "i < m_count v'"
  proof (cases "i = m_count v")
    case True
    then show ?thesis using v' inc by (simp add: word_less_nat_alt)
  next
    case False
    then show ?thesis using v' le by simp
  qed
  {
    assume "i = m_count v"
    then show "m_count v' = m_count v + 1" using v' by simp
    then show "unat (m_count v') = unat (m_count v) + 1" using inc by simp
  next
    assume "i \<noteq> m_count v"
    then show "m_count v' = m_count v" using v' by simp
  next
    assume "m_dec v \<and> io_ok v' (ticks v')"
    then show "fst (read_block cph v' i c) = Some P"
      using lt seek sl ok v' unfolding aead_correct_def
      by (auto simp: read_block_def Let_def not_le)
  next
    fix c' :: u64 assume "c' \<noteq> c"
    then have "aad_bytes c' i \<noteq> aad_bytes c i" by (simp add: aad_bytes_inj)
    with bind sl have "unseal cph n (aad_bytes c' i) ct tg = None"
      unfolding aead_binds_aad_def by blast
    then show "fst (read_block cph v' i c') = None"
      using v' by (simp add: read_block_def Let_def)
  }
qed

theorem block_round_trip_witness:
  "aead_correct plain_aead \<and> aead_binds_aad plain_aead \<and>
   fst (write_block plain_aead empty_view 0 (replicate 4064 0xAA) 0x0102030405060708) \<and>
   m_count (snd (write_block plain_aead empty_view 0 (replicate 4064 0xAA) 0x0102030405060708)) = 1 \<and>
   fst (read_block plain_aead
          (snd (write_block plain_aead empty_view 0 (replicate 4064 0xAA) 0x0102030405060708))
          0 0x0102030405060708) = Some (replicate 4064 0xAA) \<and>
   fst (read_block plain_aead
          (snd (write_block plain_aead empty_view 0 (replicate 4064 0xAA) 0x0102030405060708))
          0 0) = None \<and>
   fst (read_block plain_aead empty_view 0 0) = None \<and>
   \<not> fst (write_block plain_aead empty_view 1 (replicate 4064 0xAA) 0)"
proof -
  let ?P = "replicate 4064 (0xAA :: u8)" and ?c = "0x0102030405060708 :: u64"
  obtain v' where w: "write_block plain_aead empty_view 0 ?P ?c = (True, v')"
    by (simp add: write_block_def empty_view_def plain_aead_def lseek_ok_def)
  have cnt: "m_count empty_view \<noteq> - 1" by (simp add: empty_view_def)
  have env: "m_dec empty_view \<and> io_ok v' (ticks v')"
    using write_block_success [OF w] by (auto simp: empty_view_def)
  have neq: "(0 :: u64) \<noteq> ?c" by simp
  note rt = block_round_trip [OF plain_aead_ok cnt, of _ ?P ?c]
  have "m_count v' = 1" using rt [of 0] w by (simp add: empty_view_def)
  moreover have "fst (read_block plain_aead v' 0 ?c) = Some ?P"
    using rt [of 0] w env by blast
  moreover have "fst (read_block plain_aead v' 0 0) = None"
    using rt [of 0] w neq by blast
  moreover have "fst (read_block plain_aead empty_view 0 0) = None"
    using block_round_trip [OF plain_aead_ok cnt, of 0 ?P 0] by (simp add: empty_view_def)
  moreover have "\<not> fst (write_block plain_aead empty_view 1 ?P 0)"
    using block_round_trip [OF plain_aead_ok cnt, of 1 ?P 0] by (simp add: empty_view_def)
  ultimately show ?thesis using w plain_aead_ok by simp
qed

section \<open>Value encoder (\<open>sstl\<close>, sstl.hpp)\<close>

subsection \<open>The context in probing and writing mode\<close>

text \<open>
  The tag bytes of \<open>enum class byte\<close>, and \<open>size_type::type_sized\<close> and
  \<open>type_value\<close>, which pick the tag by the size.
\<close>

definition b_terminator :: u8 where "b_terminator = 0x00"
definition b_document :: u8 where "b_document = 0x01"
definition b_bit_false :: u8 where "b_bit_false = 0x02"
definition b_bit_true :: u8 where "b_bit_true = 0x03"
definition b_u8_value :: u8 where "b_u8_value = 0x04"
definition b_u8_sized :: u8 where "b_u8_sized = 0x05"
definition b_u32_value :: u8 where "b_u32_value = 0x06"
definition b_u32_sized :: u8 where "b_u32_sized = 0x07"
definition b_u64_value :: u8 where "b_u64_value = 0x08"
definition b_u64_sized :: u8 where "b_u64_sized = 0x09"
definition b_null_value :: u8 where "b_null_value = 0x1f"

definition uint32_max :: nat where "uint32_max = 4294967295"

definition type_sized :: "nat \<Rightarrow> u8" where
  "type_sized v = (if v < 256 then b_u8_sized else if v \<le> uint32_max then b_u32_sized else b_u64_sized)"

definition type_value :: "nat \<Rightarrow> u8" where
  "type_value v = (if v < 256 then b_u8_value else if v \<le> uint32_max then b_u32_value else b_u64_value)"

text \<open>
  \<open>context_data\<close>: \<open>begin\<close> and \<open>end\<close> point into a buffer. The model keeps the buffer
  (\<open>mem\<close>) and the two pointers as offsets into it: \<open>cur\<close> for \<open>begin\<close>, with \<open>None\<close> for
  the null pointer of a probing context, and \<open>cend\<close> for \<open>end\<close>. \<open>psize\<close> is the size counted
  while probing. \<open>write\<close> copies to \<open>begin\<close> when it is not null and counts otherwise; it
  checks no bound, so the model records in \<open>overrun\<close> a copy that would pass the end of the
  buffer. \<open>sstl::append\<close> probes, grows the buffer by the probed size and then writes.
\<close>

record context_data =
  mem :: bytes
  cur :: "nat option"
  cend :: nat
  psize :: nat
  overrun :: bool

definition probing_context :: context_data where
  "probing_context = \<lparr>mem = [], cur = None, cend = 0, psize = 0, overrun = False\<rparr>"

definition writing_context :: "bytes \<Rightarrow> nat \<Rightarrow> nat \<Rightarrow> context_data" where
  "writing_context buf pos n = \<lparr>mem = buf, cur = Some pos, cend = pos + n, psize = n, overrun = False\<rparr>"

definition ctx_write :: "bytes \<Rightarrow> context_data \<Rightarrow> context_data" where
  "ctx_write d c =
     (case cur c of
        Some p \<Rightarrow>
          if p + length d \<le> length (mem c)
          then c\<lparr>mem := take p (mem c) @ d @ drop (p + length d) (mem c), cur := Some (p + length d)\<rparr>
          else c\<lparr>cur := Some (p + length d), overrun := True\<rparr>
      | None \<Rightarrow> c\<lparr>psize := psize c + length d\<rparr>)"

definition size_bytes :: "nat \<Rightarrow> bytes" where
  "size_bytes v =
     (if v < 256 then [of_nat v]
      else if v \<le> uint32_max then be_bytes 4 (of_nat v :: u32)
      else be_bytes 8 (of_nat v :: u64))"

definition write_sized :: "bytes \<Rightarrow> context_data \<Rightarrow> context_data" where
  "write_sized d c =
     (if length d = 0 then ctx_write [b_bit_false] c
      else
        let c1 = ctx_write [type_sized (length d)] c;
            c2 = ctx_write (size_bytes (length d)) c1
        in case cur c2 of
             Some p \<Rightarrow>
               if p + length d \<le> length (mem c2)
               then c2\<lparr>mem := take p (mem c2) @ d @ drop (p + length d) (mem c2), cur := Some (p + length d)\<rparr>
               else c2\<lparr>cur := Some (p + length d), overrun := True\<rparr>
           | None \<Rightarrow> c2\<lparr>psize := psize c2 + length d\<rparr>)"

definition sstl_append ::
  "(context_data \<Rightarrow> context_data) \<Rightarrow> bytes \<Rightarrow> nat \<times> bytes \<times> context_data option" where
  "sstl_append serialize out =
     (let probe = serialize probing_context
      in if psize probe \<noteq> 0
         then
           let pos = length out;
               out1 = out @ replicate (psize probe) 0;
               ctx = serialize (writing_context out1 pos (psize probe))
           in (psize probe, mem ctx, Some ctx)
         else (0, out, None))"

definition sstl_save :: "(context_data \<Rightarrow> context_data) \<Rightarrow> bytes" where
  "sstl_save serialize = fst (snd (sstl_append serialize []))"

subsection \<open>Values and their traversal\<close>

text \<open>
  The encoder is a family of templates over the C++ type of the value. The model has one
  constructor for each kind of type the templates distinguish:
  \<^item> \<open>SBool\<close>: \<open>bool\<close>;
  \<^item> \<open>SSimple z d\<close>: an arithmetic or enum value or a \<open>serialize_copy\<close> object, given by
    the outcome \<open>z\<close> of the comparison \<open>arg == T{}\<close> and by its \<open>sizeof\<close> many stored bytes
    \<open>d\<close> (big-endian for numbers). The comparison is the one of the type \<open>T\<close>: for an
    integer or an enum it holds when all bytes are zero, for a floating point number when
    the value is a zero of either sign (so \<open>-0.0f\<close> has \<open>z\<close> true and the bytes
    \<open>80 00 00 00\<close>), for a \<open>serialize_copy\<close> class it is the class's own operator;
  \<^item> \<open>SSize\<close>: \<open>size_type\<close>;
  \<^item> \<open>SSeq es cs elems\<close>: a simple container (\<open>std::vector\<close>, \<open>std::basic_string\<close>,
    \<open>std::array\<close> of simple elements) with \<open>sizeof(value_type) = es\<close>, \<open>sizeof\<close> of the
    container object \<open>cs\<close>, and the stored bytes of each element;
  \<^item> \<open>SPtr\<close>: \<open>std::unique_ptr\<close> and \<open>std::shared_ptr\<close>;
  \<^item> \<open>SDoc\<close>: a class with a \<open>serialize\<close> method, as the calls the method makes on
    the context: \<open>ctx(x)\<close>, \<open>ctx.null(n)\<close> and \<open>ctx.name(str)\<close>;
  \<^item> \<open>SArr\<close>: \<open>std::deque\<close> and \<open>std::array\<close> of complex elements (elements only);
  \<^item> \<open>SVec\<close>: \<open>std::vector\<close> and \<open>std::basic_string\<close> of complex elements and the four
    kinds of set (count, then elements);
  \<^item> \<open>SMap\<close>: the four kinds of map (count, then key and value in turn).
  \<open>put\<close> is \<open>traverse<Type, T>::op\<close> for \<open>Type\<close> probing or writing: both run the same
  statements and differ only in what \<open>write\<close> does. \<open>std::bitset\<close> is left out: its
  template is disabled by a \<open>static_assert\<close>.
\<close>

datatype sval =
    SBool bool
  | SSimple bool bytes
  | SSize nat
  | SSeq nat nat "bytes list"
  | SPtr
  | SDoc "sitem list"
  | SArr "sval list"
  | SVec "sval list"
  | SMap "sentry list"
and sentry =
    Entry sval sval
and sitem =
    Field sval
  | Null nat
  | Name bytes

definition my_type :: "nat \<Rightarrow> u8" where
  "my_type n =
     (if n = 1 then b_u8_value else if n = 4 then b_u32_value else if n = 8 then b_u64_value
      else if n < 256 then b_u8_sized else b_u32_sized)"

definition put_size :: "nat \<Rightarrow> context_data \<Rightarrow> context_data" where
  "put_size v c =
     (if v = 0 then ctx_write [b_bit_false] c
      else ctx_write (size_bytes v) (ctx_write [type_value v] c))"

fun put :: "sval \<Rightarrow> context_data \<Rightarrow> context_data"
  and put_all :: "sval list \<Rightarrow> context_data \<Rightarrow> context_data"
  and put_pairs :: "sentry list \<Rightarrow> context_data \<Rightarrow> context_data"
  and put_item :: "sitem \<Rightarrow> context_data \<Rightarrow> context_data"
  and put_items :: "sitem list \<Rightarrow> context_data \<Rightarrow> context_data"
where
  "put (SBool b) c = ctx_write [if b then b_bit_true else b_bit_false] c"
| "put (SSimple z d) c =
     (if z then ctx_write [b_bit_false] c
      else if my_type (length d) = b_u8_sized \<or> my_type (length d) = b_u32_sized
      then write_sized d c
      else ctx_write d (ctx_write [my_type (length d)] c))"
| "put (SSize v) c = put_size v c"
| "put (SSeq es cs elems) c =
     (if elems = [] then ctx_write [b_bit_false] c
      else if es = 1 then write_sized (concat elems) c
      else
        let n = length elems * cs;
            c1 = ctx_write [type_sized n] c;
            c2 = ctx_write (size_bytes n) c1
        in fold ctx_write elems c2)"
| "put SPtr c = ctx_write [b_null_value] c"
| "put (SDoc items) c =
     ctx_write [b_terminator] (put_items items (ctx_write [b_document] c))"
| "put (SArr xs) c =
     (if xs = [] then ctx_write [b_bit_false] c
      else ctx_write [b_terminator] (put_all xs (ctx_write [b_document] c)))"
| "put (SVec xs) c =
     (if xs = [] then ctx_write [b_bit_false] c
      else ctx_write [b_terminator]
             (put_all xs (put_size (length xs) (ctx_write [b_document] c))))"
| "put (SMap kvs) c =
     (if kvs = [] then ctx_write [b_bit_false] c
      else ctx_write [b_terminator]
             (put_pairs kvs (put_size (length kvs) (ctx_write [b_document] c))))"
| "put_all [] c = c"
| "put_all (x # xs) c = put_all xs (put x c)"
| "put_pairs [] c = c"
| "put_pairs (Entry k v # kvs) c = put_pairs kvs (put v (put k c))"
| "put_item (Field x) c = put x c"
| "put_item (Null n) c = ctx_write (replicate n b_null_value) c"
| "put_item (Name str) c = ctx_write (takeWhile (\<lambda>b. b_null_value < b) str) c"
| "put_items [] c = c"
| "put_items (i # is) c = put_items is (put_item i c)"

subsection \<open>The bytes of a value\<close>

text \<open>
  \<open>encode x\<close> is the byte string that the traversal of \<open>x\<close> hands to \<open>write\<close>, piece by
  piece. \<open>wr_ok d c\<close> says that \<open>d\<close> fits between the cursor and the end of the buffer of
  \<open>c\<close> (always, when \<open>c\<close> is probing).
\<close>

fun encode :: "sval \<Rightarrow> bytes"
  and encode_all :: "sval list \<Rightarrow> bytes"
  and encode_pairs :: "sentry list \<Rightarrow> bytes"
  and encode_item :: "sitem \<Rightarrow> bytes"
  and encode_items :: "sitem list \<Rightarrow> bytes"
where
  "encode (SBool b) = [if b then b_bit_true else b_bit_false]"
| "encode (SSimple z d) =
     (if z then [b_bit_false]
      else if my_type (length d) = b_u8_sized \<or> my_type (length d) = b_u32_sized
      then (if length d = 0 then [b_bit_false]
            else type_sized (length d) # size_bytes (length d) @ d)
      else my_type (length d) # d)"
| "encode (SSize v) = (if v = 0 then [b_bit_false] else type_value v # size_bytes v)"
| "encode (SSeq es cs elems) =
     (if elems = [] then [b_bit_false]
      else if es = 1
      then (if length (concat elems) = 0 then [b_bit_false]
            else type_sized (length (concat elems)) # size_bytes (length (concat elems)) @ concat elems)
      else type_sized (length elems * cs) # size_bytes (length elems * cs) @ concat elems)"
| "encode SPtr = [b_null_value]"
| "encode (SDoc items) = b_document # encode_items items @ [b_terminator]"
| "encode (SArr xs) =
     (if xs = [] then [b_bit_false] else b_document # encode_all xs @ [b_terminator])"
| "encode (SVec xs) =
     (if xs = [] then [b_bit_false]
      else b_document # encode (SSize (length xs)) @ encode_all xs @ [b_terminator])"
| "encode (SMap kvs) =
     (if kvs = [] then [b_bit_false]
      else b_document # encode (SSize (length kvs)) @ encode_pairs kvs @ [b_terminator])"
| "encode_all [] = []"
| "encode_all (x # xs) = encode x @ encode_all xs"
| "encode_pairs [] = []"
| "encode_pairs (Entry k v # kvs) = encode k @ encode v @ encode_pairs kvs"
| "encode_item (Field x) = encode x"
| "encode_item (Null n) = replicate n b_null_value"
| "encode_item (Name str) = takeWhile (\<lambda>b. b_null_value < b) str"
| "encode_items [] = []"
| "encode_items (i # is) = encode_item i @ encode_items is"

definition wr_ok :: "bytes \<Rightarrow> context_data \<Rightarrow> bool" where
  "wr_ok d c \<longleftrightarrow> (case cur c of None \<Rightarrow> True | Some p \<Rightarrow> p + length d \<le> length (mem c))"


lemma ctx_write_Nil: "wr_ok [] c \<Longrightarrow> ctx_write [] c = c"
  by (cases "cur c") (auto simp: ctx_write_def wr_ok_def)

lemma ctx_write_append:
  assumes "wr_ok (a @ b) c"
  shows "ctx_write b (ctx_write a c) = ctx_write (a @ b) c"
proof (cases "cur c")
  case None
  then show ?thesis by (simp add: ctx_write_def)
next
  case (Some p)
  then have le: "p + length a + length b \<le> length (mem c)"
    using assms by (simp add: wr_ok_def)
  show ?thesis
  proof (cases "length (mem c) \<le> p")
    case True
    then have "length a = 0 \<and> length b = 0" using le by linarith
    then have "a = []" "b = []" by simp_all
    then show ?thesis using Some True by (simp add: ctx_write_def)
  next
    case False
    then show ?thesis using Some le
      by (auto simp: ctx_write_def min_def add_ac)
  qed
qed

lemma wr_ok_append:
  "wr_ok (a @ b) c \<longleftrightarrow> wr_ok a c \<and> wr_ok b (ctx_write a c)"
  by (cases "cur c") (auto simp: wr_ok_def ctx_write_def)

lemma write_sized_eq:
  assumes "wr_ok (if length d = 0 then [b_bit_false] else type_sized (length d) # size_bytes (length d) @ d) c"
  shows "write_sized d c =
         ctx_write (if length d = 0 then [b_bit_false] else type_sized (length d) # size_bytes (length d) @ d) c"
proof (cases "length d = 0")
  case True
  then show ?thesis by (simp add: write_sized_def)
next
  case False
  let ?t = "[type_sized (length d)]" and ?s = "size_bytes (length d)"
  have ok: "wr_ok ((?t @ ?s) @ d) c" using assms False by simp
  then have ok2: "wr_ok (?t @ ?s) c" by (simp only: wr_ok_append)
  have "write_sized d c = ctx_write d (ctx_write ?s (ctx_write ?t c))"
    using False by (simp add: write_sized_def Let_def ctx_write_def [of d])
  also have "\<dots> = ctx_write d (ctx_write (?t @ ?s) c)"
    by (simp only: ctx_write_append [OF ok2])
  also have "\<dots> = ctx_write ((?t @ ?s) @ d) c"
    by (simp only: ctx_write_append [OF ok])
  finally show ?thesis using False by simp
qed

lemma write_seq:
  assumes ok: "wr_ok (a @ b) c"
    and f: "wr_ok a c \<Longrightarrow> f c = ctx_write a c"
    and g: "wr_ok b (f c) \<Longrightarrow> g (f c) = ctx_write b (f c)"
  shows "g (f c) = ctx_write (a @ b) c"
proof -
  from ok have a: "wr_ok a c" and b: "wr_ok b (ctx_write a c)"
    by (simp_all only: wr_ok_append)
  have fc: "f c = ctx_write a c" using a by (rule f)
  then have "g (f c) = ctx_write b (ctx_write a c)" using g b by simp
  then show ?thesis by (simp only: ctx_write_append [OF ok])
qed

lemma write_bracket:
  assumes ok: "wr_ok (h # body @ [t]) c"
    and f: "wr_ok body (ctx_write [h] c) \<Longrightarrow> f (ctx_write [h] c) = ctx_write body (ctx_write [h] c)"
  shows "ctx_write [t] (f (ctx_write [h] c)) = ctx_write (h # body @ [t]) c"
proof -
  have ok': "wr_ok ([h] @ (body @ [t])) c" using ok by simp
  have "ctx_write [t] (f (ctx_write [h] c)) = ctx_write (body @ [t]) (ctx_write [h] c)"
  proof (rule write_seq [where f = f and g = "ctx_write [t]" and a = body and b = "[t]"
        and c = "ctx_write [h] c"])
    show "wr_ok (body @ [t]) (ctx_write [h] c)" using ok' by (simp only: wr_ok_append)
    show "wr_ok body (ctx_write [h] c) \<Longrightarrow> f (ctx_write [h] c) = ctx_write body (ctx_write [h] c)"
      by (rule f)
  qed simp
  also have "\<dots> = ctx_write ([h] @ (body @ [t])) c"
    by (simp only: ctx_write_append [OF ok'])
  finally show ?thesis by simp
qed

lemma fold_write:
  "wr_ok (concat es) c \<Longrightarrow> fold ctx_write es c = ctx_write (concat es) c"
proof (induction es arbitrary: c)
  case Nil
  then show ?case by (simp add: ctx_write_Nil)
next
  case (Cons e es)
  have "fold ctx_write es (ctx_write e c) = ctx_write (e @ concat es) c"
    by (rule write_seq [where f = "ctx_write e" and g = "fold ctx_write es" and a = e
          and b = "concat es"]) (use Cons in simp_all)
  then show ?case by simp
qed

lemma put_size_encode:
  "wr_ok (encode (SSize v)) c \<Longrightarrow> put_size v c = ctx_write (encode (SSize v)) c"
proof (cases "v = 0")
  case True
  then show ?thesis by (simp add: put_size_def)
next
  case False
  assume "wr_ok (encode (SSize v)) c"
  then have "wr_ok ([type_value v] @ size_bytes v) c" using False by simp
  then have "ctx_write (size_bytes v) (ctx_write [type_value v] c) = ctx_write ([type_value v] @ size_bytes v) c"
    by (rule ctx_write_append)
  then show ?thesis using False by (simp add: put_size_def)
qed

text \<open>
  The float \<open>-0.0f\<close> compares equal to \<open>float{}\<close>, so it is written as the single byte
  \<open>bit_false\<close>, like \<open>0.0f\<close>; a float that does not is written with its four bytes.
\<close>

lemma encode_negative_zero:
  "encode (SSimple True [0x80, 0, 0, 0]) = [b_bit_false]"
  "encode (SSimple False [0x3F, 0x80, 0, 0]) = [b_u32_value, 0x3F, 0x80, 0, 0]"
  by (simp_all add: my_type_def b_u8_value_def b_u32_value_def b_u64_value_def
      b_u8_sized_def b_u32_sized_def)

lemma put_encode:
  "wr_ok (encode x) c \<Longrightarrow> put x c = ctx_write (encode x) c"
  "wr_ok (encode_all xs) c \<Longrightarrow> put_all xs c = ctx_write (encode_all xs) c"
  "wr_ok (encode_pairs kvs) c \<Longrightarrow> put_pairs kvs c = ctx_write (encode_pairs kvs) c"
  "wr_ok (encode_item i) c \<Longrightarrow> put_item i c = ctx_write (encode_item i) c"
  "wr_ok (encode_items js) c \<Longrightarrow> put_items js c = ctx_write (encode_items js) c"
proof (induction x c and xs c and kvs c and i c and js c
    rule: put_put_all_put_pairs_put_item_put_items.induct)
  case (1 b c)
  then show ?case by simp
next
  case (2 z d c)
  show ?case
  proof (cases z)
    case True
    then show ?thesis by simp
  next
    case False
    show ?thesis
    proof (cases "my_type (length d) = b_u8_sized \<or> my_type (length d) = b_u32_sized")
      case True
      then show ?thesis using False 2 by (simp add: write_sized_eq)
    next
      case nosize: False
      then have "wr_ok ([my_type (length d)] @ d) c" using False 2 by simp
      then have "ctx_write d (ctx_write [my_type (length d)] c) = ctx_write ([my_type (length d)] @ d) c"
        by (rule ctx_write_append)
      then show ?thesis using False nosize by simp
    qed
  qed
next
  case (3 v c)
  then show ?case by (simp only: put.simps put_size_encode)
next
  case (4 es cs elems c)
  show ?case
  proof (cases "elems = []")
    case True
    then show ?thesis by simp
  next
    case False
    show ?thesis
    proof (cases "es = 1")
      case True
      then show ?thesis using False 4 by (simp add: write_sized_eq)
    next
      case wide: False
      let ?n = "length elems * cs"
      let ?h = "[type_sized ?n] @ size_bytes ?n"
      have ok: "wr_ok (?h @ concat elems) c" using 4 False wide by simp
      then have okh: "wr_ok ?h c" by (simp only: wr_ok_append)
      have h: "ctx_write (size_bytes ?n) (ctx_write [type_sized ?n] c) = ctx_write ?h c"
        using okh by (rule ctx_write_append)
      have "fold ctx_write elems (ctx_write ?h c) = ctx_write (?h @ concat elems) c"
        by (rule write_seq [where f = "ctx_write ?h" and g = "fold ctx_write elems" and a = ?h
              and b = "concat elems"]) (use ok in \<open>simp_all add: fold_write\<close>)
      then show ?thesis using False wide h by (simp add: Let_def)
    qed
  qed
next
  case (5 c)
  then show ?case by simp
next
  case (6 items c)
  have "ctx_write [b_terminator] (put_items items (ctx_write [b_document] c)) =
      ctx_write (b_document # encode_items items @ [b_terminator]) c"
    by (rule write_bracket [where f = "put_items items"]) (use 6 in simp_all)
  then show ?case by simp
next
  case (7 xs c)
  show ?case
  proof (cases "xs = []")
    case True
    then show ?thesis by simp
  next
    case False
    have "ctx_write [b_terminator] (put_all xs (ctx_write [b_document] c)) =
        ctx_write (b_document # encode_all xs @ [b_terminator]) c"
      by (rule write_bracket [where f = "put_all xs"]) (use 7 False in simp_all)
    then show ?thesis using False by simp
  qed
next
  case (8 xs c)
  show ?case
  proof (cases "xs = []")
    case True
    then show ?thesis by simp
  next
    case False
    let ?f = "\<lambda>c. put_all xs (put_size (length xs) c)"
    have "ctx_write [b_terminator] (?f (ctx_write [b_document] c)) =
        ctx_write (b_document # (encode (SSize (length xs)) @ encode_all xs) @ [b_terminator]) c"
    proof (rule write_bracket [where f = ?f])
      show "wr_ok (b_document # (encode (SSize (length xs)) @ encode_all xs) @ [b_terminator]) c"
        using 8 False by simp
      assume ok: "wr_ok (encode (SSize (length xs)) @ encode_all xs) (ctx_write [b_document] c)"
      show "?f (ctx_write [b_document] c) =
          ctx_write (encode (SSize (length xs)) @ encode_all xs) (ctx_write [b_document] c)"
        by (rule write_seq [OF ok, where f = "put_size (length xs)" and g = "put_all xs"])
          (use 8 False in \<open>simp_all add: put_size_encode\<close>)
    qed
    then show ?thesis using False by simp
  qed
next
  case (9 kvs c)
  show ?case
  proof (cases "kvs = []")
    case True
    then show ?thesis by simp
  next
    case False
    let ?f = "\<lambda>c. put_pairs kvs (put_size (length kvs) c)"
    have "ctx_write [b_terminator] (?f (ctx_write [b_document] c)) =
        ctx_write (b_document # (encode (SSize (length kvs)) @ encode_pairs kvs) @ [b_terminator]) c"
    proof (rule write_bracket [where f = ?f])
      show "wr_ok (b_document # (encode (SSize (length kvs)) @ encode_pairs kvs) @ [b_terminator]) c"
        using 9 False by simp
      assume ok: "wr_ok (encode (SSize (length kvs)) @ encode_pairs kvs) (ctx_write [b_document] c)"
      show "?f (ctx_write [b_document] c) =
          ctx_write (encode (SSize (length kvs)) @ encode_pairs kvs) (ctx_write [b_document] c)"
        by (rule write_seq [OF ok, where f = "put_size (length kvs)" and g = "put_pairs kvs"])
          (use 9 False in \<open>simp_all add: put_size_encode\<close>)
    qed
    then show ?thesis using False by simp
  qed
next
  case (10 c)
  then show ?case by (simp add: ctx_write_Nil)
next
  case (11 x xs c)
  have "put_all xs (put x c) = ctx_write (encode x @ encode_all xs) c"
    by (rule write_seq [where f = "put x" and g = "put_all xs"]) (use 11 in simp_all)
  then show ?case by simp
next
  case (12 c)
  then show ?case by (simp add: ctx_write_Nil)
next
  case (13 k v kvs c)
  let ?f = "\<lambda>c. put v (put k c)"
  have ok: "wr_ok ((encode k @ encode v) @ encode_pairs kvs) c" using 13 by simp
  have "put_pairs kvs (?f c) = ctx_write ((encode k @ encode v) @ encode_pairs kvs) c"
  proof (rule write_seq [OF ok, where f = ?f and g = "put_pairs kvs"])
    assume ok2: "wr_ok (encode k @ encode v) c"
    show kv: "?f c = ctx_write (encode k @ encode v) c"
      by (rule write_seq [OF ok2, where f = "put k" and g = "put v"]) (use 13 in simp_all)
  next
    assume "wr_ok (encode_pairs kvs) (?f c)"
    then show "put_pairs kvs (?f c) = ctx_write (encode_pairs kvs) (?f c)"
      using 13 by simp
  qed
  then show ?case by simp
next
  case (14 x c)
  then show ?case by simp
next
  case (15 n c)
  then show ?case by simp
next
  case (16 str c)
  then show ?case by simp
next
  case (17 c)
  then show ?case by (simp add: ctx_write_Nil)
next
  case (18 i js c)
  have "put_items js (put_item i c) = ctx_write (encode_item i @ encode_items js) c"
    by (rule write_seq [where f = "put_item i" and g = "put_items js"]) (use 18 in simp_all)
  then show ?case by simp
qed

lemma probe_size: "psize (put_all xs probing_context) = length (encode_all xs)"
proof -
  have "wr_ok (encode_all xs) probing_context"
    by (simp add: wr_ok_def probing_context_def)
  then have "put_all xs probing_context = ctx_write (encode_all xs) probing_context"
    by (rule put_encode)
  then show ?thesis by (simp add: ctx_write_def probing_context_def)
qed

lemma write_result:
  assumes "n = length (encode_all xs)"
  shows "put_all xs (writing_context (out @ replicate n 0) (length out) n) =
         \<lparr>mem = out @ encode_all xs, cur = Some (length out + n), cend = length out + n,
          psize = n, overrun = False\<rparr>"
proof -
  let ?c = "writing_context (out @ replicate n 0) (length out) n"
  have "wr_ok (encode_all xs) ?c"
    using assms by (simp add: wr_ok_def writing_context_def)
  then have "put_all xs ?c = ctx_write (encode_all xs) ?c"
    by (rule put_encode)
  then show ?thesis using assms by (simp add: ctx_write_def writing_context_def)
qed

text \<open>
  Claim C10. For every list of values a \<open>serialize\<close> callback traverses: the size \<open>n\<close>
  counted by the probing run is the number of bytes the writing run emits. In
  \<open>sstl::append\<close>, which grows the buffer \<open>out\<close> by \<open>n\<close> and writes from the old end, the
  cursor ends at \<open>length out + n\<close>, which is the end of the reserved region, no copy passes
  it, the bytes of \<open>out\<close> are kept, and the buffer returned has grown by exactly \<open>n\<close>.
\<close>

theorem probe_matches_write:
  "(let n = psize (put_all xs probing_context);
        c = put_all xs (writing_context (out @ replicate n 0) (length out) n)
    in cur c = Some (length out + n) \<and> cur c = Some (cend c) \<and> \<not> overrun c \<and>
       length (mem c) = length out + n \<and> take (length out) (mem c) = out \<and>
       fst (sstl_append (put_all xs) out) = n \<and>
       fst (snd (sstl_append (put_all xs) out)) = mem c \<and>
       length (fst (snd (sstl_append (put_all xs) out))) = length out + n)"
proof -
  let ?n = "length (encode_all xs)"
  have w: "put_all xs (writing_context (out @ replicate ?n 0) (length out) ?n) =
         \<lparr>mem = out @ encode_all xs, cur = Some (length out + ?n), cend = length out + ?n,
          psize = ?n, overrun = False\<rparr>"
    by (rule write_result) simp
  show ?thesis
    unfolding Let_def probe_size sstl_append_def w by simp
qed

theorem probe_matches_write_witness:
  "sstl_append (put_all [SSeq 1 32 [[0x61], [0x62]], SSimple False [0, 0, 0, 7], SVec [SBool True]]) [0xFF] =
     (14, [0xFF, 5, 2, 0x61, 0x62, 6, 0, 0, 0, 7, 1, 4, 1, 3, 0],
      Some \<lparr>mem = [0xFF, 5, 2, 0x61, 0x62, 6, 0, 0, 0, 7, 1, 4, 1, 3, 0], cur = Some 15,
            cend = 15, psize = 14, overrun = False\<rparr>)"
proof -
  let ?xs = "[SSeq 1 32 [[0x61], [0x62]], SSimple False [0, 0, 0, 7], SVec [SBool True]]"
  have e: "encode_all ?xs = [5, 2, 0x61, 0x62, 6, 0, 0, 0, 7, 1, 4, 1, 3, 0]"
    by (simp add: my_type_def type_sized_def type_value_def size_bytes_def
        b_u8_sized_def b_u32_sized_def b_u32_value_def b_u8_value_def b_u64_value_def
        b_document_def b_terminator_def b_bit_true_def)
  have p: "psize (put_all ?xs probing_context) = 14"
    by (simp only: probe_size e) simp
  have w: "put_all ?xs (writing_context ([0xFF] @ replicate 14 0) (length [0xFF :: u8]) 14) =
      \<lparr>mem = [0xFF] @ encode_all ?xs, cur = Some (length [0xFF :: u8] + 14),
       cend = length [0xFF :: u8] + 14, psize = 14, overrun = False\<rparr>"
    by (rule write_result) (simp only: e, simp)
  have n: "fst (sstl_append (put_all ?xs) [0xFF]) = psize (put_all ?xs probing_context)"
    using probe_matches_write [of ?xs "[0xFF]"] unfolding Let_def by (elim conjE)
  have "sstl_append (put_all ?xs) [0xFF] =
     (14, [0xFF, 5, 2, 0x61, 0x62, 6, 0, 0, 0, 7, 1, 4, 1, 3, 0],
      Some \<lparr>mem = [0xFF, 5, 2, 0x61, 0x62, 6, 0, 0, 0, 7, 1, 4, 1, 3, 0], cur = Some 15,
            cend = 15, psize = 14, overrun = False\<rparr>)"
    unfolding sstl_append_def Let_def p w e by simp
  with n show ?thesis by simp
qed

subsection \<open>The context in reading mode\<close>

text \<open>
  A reading context points into the bytes to decode; \<open>psize\<close> is the recursion level.
  \<open>remaining()\<close> is \<open>end - begin\<close> converted to \<open>size_t\<close>, so it is huge once \<open>begin\<close>
  has passed \<open>end\<close>. \<open>read\<close> copies \<open>n\<close> bytes when that many remain and otherwise moves
  to the end and leaves its output untouched (\<open>None\<close>). Dereferencing or copying from
  outside the buffer, and using a value that was left uninitialised, set \<open>overrun\<close>.

  \<open>read_size\<close> reads a size of 1, 4 or 8 bytes by the tag and checks it against what
  remains. When the read fails the size variable is uninitialised, but then nothing
  remains, and both ways out of the function return 0 at the end of the buffer.
  \<open>skip_step\<close> is one iteration of the loop of \<open>skip\<close> after \<open>*begin++\<close>: whether the
  function returns, the new level and the new context.
\<close>

definition reading_context :: "bytes \<Rightarrow> context_data" where
  "reading_context buf = \<lparr>mem = buf, cur = Some 0, cend = length buf, psize = 0, overrun = False\<rparr>"

definition rd_pos :: "context_data \<Rightarrow> nat" where
  "rd_pos c = (case cur c of Some p \<Rightarrow> p | None \<Rightarrow> 0)"

definition remaining :: "context_data \<Rightarrow> nat" where
  "remaining c =
     (if rd_pos c \<le> cend c then cend c - rd_pos c else 2 ^ 64 - (rd_pos c - cend c))"

definition advance :: "nat \<Rightarrow> context_data \<Rightarrow> context_data" where
  "advance n c = c\<lparr>cur := Some (rd_pos c + n)\<rparr>"

definition to_end :: "context_data \<Rightarrow> context_data" where
  "to_end c = c\<lparr>cur := Some (cend c)\<rparr>"

definition rd_peek :: "context_data \<Rightarrow> u8 option" where
  "rd_peek c = (if rd_pos c < length (mem c) then Some (mem c ! rd_pos c) else None)"

definition rd_read :: "nat \<Rightarrow> context_data \<Rightarrow> bytes option \<times> context_data" where
  "rd_read n c =
     (if n \<le> remaining c
      then (if rd_pos c + n \<le> length (mem c)
            then (Some (take n (drop (rd_pos c) (mem c))), advance n c)
            else (None, (advance n c)\<lparr>overrun := True\<rparr>))
      else (None, to_end c))"

definition size_width :: "u8 \<Rightarrow> nat" where
  "size_width t =
     (if t = b_u8_value \<or> t = b_u8_sized then 1
      else if t = b_u32_value \<or> t = b_u32_sized then 4
      else if t = b_u64_value \<or> t = b_u64_sized then 8
      else 0)"

definition read_size :: "u8 \<Rightarrow> context_data \<Rightarrow> nat \<times> context_data" where
  "read_size t c =
     (if size_width t = 0 then (0, to_end c)
      else
        case rd_read (size_width t) c of
          (Some bs, c1) \<Rightarrow>
            let v = unat (be_word bs :: u64)
            in if v \<le> remaining c1 then (v, c1) else (0, to_end c1)
        | (None, c1) \<Rightarrow> (0, to_end c1))"

definition skip_step :: "nat \<Rightarrow> u8 \<Rightarrow> context_data \<Rightarrow> bool \<times> nat \<times> context_data" where
  "skip_step level b c1 =
     (if b = b_terminator then (level - 1 = 0, level - 1, c1)
      else if b = b_document then (False, level + 1, c1)
      else if b = b_null_value \<or> b = b_bit_false \<or> b = b_bit_true then (level = 0, level, c1)
      else if b = b_u8_value then (level = 0, level, snd (rd_read 1 c1))
      else if b = b_u32_value then (level = 0, level, snd (rd_read 4 c1))
      else if b = b_u64_value then (level = 0, level, snd (rd_read 8 c1))
      else if b = b_u8_sized \<or> b = b_u32_sized \<or> b = b_u64_sized
      then (let (n, c2) = read_size b c1 in (level = 0, level, advance n c2))
      else if b < b_null_value then (True, level, to_end c1)
      else (False, level, c1))"


lemma rd_read_pos:
  assumes "rd_pos c \<le> cend c"
  shows "rd_pos c \<le> rd_pos (snd (rd_read n c))" "rd_pos (snd (rd_read n c)) \<le> cend c"
    "cend (snd (rd_read n c)) = cend c"
  using assms by (auto simp: rd_read_def advance_def to_end_def rd_pos_def remaining_def split: if_splits)

lemma read_size_pos:
  assumes "rd_pos c \<le> cend c"
  shows "rd_pos c \<le> rd_pos (snd (read_size t c))"
    "rd_pos (snd (read_size t c)) + fst (read_size t c) \<le> cend c"
    "cend (snd (read_size t c)) = cend c"
  using assms rd_read_pos [OF assms, of "size_width t"]
  by (auto simp: read_size_def Let_def to_end_def rd_pos_def remaining_def split: prod.splits option.splits if_splits)

lemma skip_step_pos:
  assumes "rd_pos c1 \<le> cend c1" and "skip_step level b c1 = (stop, level', c')"
  shows "rd_pos c1 \<le> rd_pos c' \<and> rd_pos c' \<le> cend c1 \<and> cend c' = cend c1"
  using assms rd_read_pos [OF assms(1)] read_size_pos [OF assms(1), of b]
  by (auto simp: skip_step_def Let_def to_end_def advance_def rd_pos_def split: prod.splits if_splits)

function skip :: "nat \<Rightarrow> context_data \<Rightarrow> context_data" where
  "skip level c =
     (if rd_pos c < cend c
      then (case rd_peek c of
              None \<Rightarrow> c\<lparr>overrun := True\<rparr>
            | Some b \<Rightarrow>
                if level = 0 \<and> b = b_terminator then c
                else (case skip_step level b (advance 1 c) of
                        (stop, level', c') \<Rightarrow> if stop then c' else skip level' c'))
      else c)"
  by pat_completeness auto
termination
proof (relation "measure (\<lambda>(level, c). cend c - rd_pos c)")
  show "wf (measure (\<lambda>(level, c). cend c - rd_pos c))" by simp
next
  fix level c b stop y level' c'
  assume lt: "rd_pos c < cend c"
    and xs: "(stop, y) = skip_step level b (advance 1 c)" and ys: "(level', c') = y"
  have a: "rd_pos (advance 1 c) = rd_pos c + 1" "cend (advance 1 c) = cend c"
    by (simp_all add: advance_def rd_pos_def)
  have "skip_step level b (advance 1 c) = (stop, level', c')" using xs ys by simp
  from skip_step_pos [OF _ this] a lt
  have "rd_pos c + 1 \<le> rd_pos c' \<and> rd_pos c' \<le> cend c \<and> cend c' = cend c" by simp
  then have "cend c' - rd_pos c' < cend c - rd_pos c" by linarith
  then show "((level', c'), (level, c)) \<in> measure (\<lambda>(level, c). cend c - rd_pos c)"
    by simp
qed


lemma skip_pos:
  "rd_pos c \<le> cend c \<Longrightarrow>
     rd_pos c \<le> rd_pos (skip level c) \<and> rd_pos (skip level c) \<le> cend c \<and>
     cend (skip level c) = cend c"
proof (induction level c rule: skip.induct)
  case (1 level c)
  show ?case
  proof (cases "rd_pos c < cend c")
    case False
    then show ?thesis using 1 by simp
  next
    case True
    show ?thesis
    proof (cases "rd_peek c")
      case None
      then show ?thesis using True by (simp add: rd_pos_def)
    next
      case (Some b)
      show ?thesis
      proof (cases "level = 0 \<and> b = b_terminator")
        case True
        then show ?thesis using Some \<open>rd_pos c < cend c\<close> by simp
      next
        case False
        obtain stop level' c' where st: "skip_step level b (advance 1 c) = (stop, level', c')"
          by (cases "skip_step level b (advance 1 c)") auto
        have a: "rd_pos (advance 1 c) = rd_pos c + 1" "cend (advance 1 c) = cend c"
          by (simp_all add: advance_def rd_pos_def)
        from skip_step_pos [OF _ st] a True
        have c': "rd_pos c + 1 \<le> rd_pos c' \<and> rd_pos c' \<le> cend c \<and> cend c' = cend c" by simp
        show ?thesis
        proof (cases stop)
          case True
          then show ?thesis using Some False st c' \<open>rd_pos c < cend c\<close> by simp
        next
          case nostop: False
          have "rd_pos c' \<le> rd_pos (skip level' c') \<and> rd_pos (skip level' c') \<le> cend c' \<and>
              cend (skip level' c') = cend c'"
            using "1.IH" [OF True Some False st [symmetric] refl nostop] c' by simp
          then show ?thesis using Some False st c' nostop \<open>rd_pos c < cend c\<close> by simp
        qed
      qed
    qed
  qed
qed

lemma skip_progress:
  assumes "rd_pos c < cend c" and "rd_peek c = Some b" and "b \<noteq> b_terminator"
  shows "rd_pos c < rd_pos (skip 0 c)"
proof -
  obtain stop level' c' where st: "skip_step 0 b (advance 1 c) = (stop, level', c')"
    by (cases "skip_step 0 b (advance 1 c)") auto
  have a: "rd_pos (advance 1 c) = rd_pos c + 1" "cend (advance 1 c) = cend c"
    by (simp_all add: advance_def rd_pos_def)
  from skip_step_pos [OF _ st] a assms(1)
  have c': "rd_pos c + 1 \<le> rd_pos c' \<and> rd_pos c' \<le> cend c \<and> cend c' = cend c" by simp
  then have "rd_pos c' \<le> rd_pos (skip level' c')" using skip_pos [of c' level'] by simp
  then show ?thesis using assms st c' by (cases stop) simp_all
qed

function drop_doc :: "context_data \<Rightarrow> context_data" where
  "drop_doc c =
     (if rd_pos c < cend c
      then (case rd_peek c of
              None \<Rightarrow> c\<lparr>overrun := True\<rparr>
            | Some b \<Rightarrow> if b = b_terminator then c else drop_doc (skip 0 c))
      else c)"
  by pat_completeness auto
termination
proof (relation "measure (\<lambda>c. cend c - rd_pos c)")
  show "wf (measure (\<lambda>c. cend c - rd_pos c))" by simp
next
  fix c b
  assume lt: "rd_pos c < cend c" and pk: "rd_peek c = Some b" and nt: "b \<noteq> b_terminator"
  have "rd_pos c < rd_pos (skip 0 c)" using lt pk nt by (rule skip_progress)
  moreover have "rd_pos (skip 0 c) \<le> cend c \<and> cend (skip 0 c) = cend c"
    using skip_pos [of c 0] lt by simp
  ultimately have "cend (skip 0 c) - rd_pos (skip 0 c) < cend c - rd_pos c" by linarith
  then show "(skip 0 c, c) \<in> measure (\<lambda>c. cend c - rd_pos c)"
    by simp
qed

text \<open>
  \<open>traverse_container_simple\<close> in reading mode is \<open>get_seq\<close>: \<open>es\<close> is
  \<open>sizeof(value_type)\<close>, \<open>fixed\<close> the length of a \<open>std::array\<close> (whose \<open>resize\<close> ignores the
  size and zeroes the elements) or \<open>None\<close> for a vector or string, \<open>arg\<close> the container
  before the call. The size read from the stream is used as the number of elements.
\<close>

definition container_resize :: "nat option \<Rightarrow> nat \<Rightarrow> nat \<Rightarrow> bytes list" where
  "container_resize fixed es n =
     (case fixed of None \<Rightarrow> replicate n (replicate es 0) | Some N \<Rightarrow> replicate N (replicate es 0))"

fun read_elems :: "nat \<Rightarrow> nat \<Rightarrow> bytes list \<Rightarrow> context_data \<Rightarrow> bytes list \<times> context_data" where
  "read_elems lim es [] c = ([], c)"
| "read_elems lim es (v # vs) c =
     (if rd_pos c < lim
      then (case rd_read es c of
              (Some d, c1) \<Rightarrow> (case read_elems lim es vs c1 of (r, c2) \<Rightarrow> (d # r, c2))
            | (None, c1) \<Rightarrow>
                (case read_elems lim es vs (c1\<lparr>overrun := True\<rparr>) of (r, c2) \<Rightarrow> (v # r, c2)))
      else (case read_elems lim es vs c of (r, c2) \<Rightarrow> (v # r, c2)))"

definition get_seq :: "nat \<Rightarrow> nat option \<Rightarrow> bytes list \<Rightarrow> context_data \<Rightarrow> bytes list \<times> context_data" where
  "get_seq es fixed arg c =
     (if remaining c = 0 then (arg, c)
      else
        case rd_peek c of
          None \<Rightarrow> (arg, c\<lparr>overrun := True\<rparr>)
        | Some b \<Rightarrow>
            if b = b_bit_false then (container_resize fixed es 0, advance 1 c)
            else if b = b_u8_sized \<or> b = b_u32_sized \<or> b = b_u64_sized
            then
              (case read_size b (advance 1 c) of
                 (n, c1) \<Rightarrow>
                   let arg1 = container_resize fixed es n
                   in if es = 1
                      then
                        let d = take (min (length arg1) n) (drop (rd_pos c1) (mem c1))
                        in (map (\<lambda>x. [x]) d @ drop (length d) arg1, advance n c1)
                      else
                        let lim = rd_pos c1 + es * n
                        in (case read_elems lim es arg1 c1 of
                              (arg2, c2) \<Rightarrow> (arg2, c2\<lparr>cur := Some lim\<rparr>)))
            else if b = b_null_value then (arg, advance 1 c)
            else (arg, drop_doc c))"

lemma get_seq_wide:
  assumes "remaining c \<noteq> 0" and "rd_peek c = Some b"
    and "b = b_u8_sized \<or> b = b_u32_sized \<or> b = b_u64_sized"
    and "read_size b (advance 1 c) = (n, c1)" and "es \<noteq> 1"
  shows "get_seq es fixed arg c =
         (case read_elems (rd_pos c1 + es * n) es (container_resize fixed es n) c1 of
            (arg2, c2) \<Rightarrow> (arg2, c2\<lparr>cur := Some (rd_pos c1 + es * n)\<rparr>))"
  using assms
  by (auto simp: get_seq_def Let_def b_bit_false_def b_u8_sized_def b_u32_sized_def b_u64_sized_def)

text \<open>
  Claim C6 fails on the code. A \<open>std::vector<uint32_t>\<close> holding the one element 1, on a
  platform where \<open>sizeof(std::vector<uint32_t>)\<close> is 24, is written as the tag
  \<open>u8_sized\<close>, the size \<open>1 * 24\<close> (the writer multiplies by the size of the container
  type, not of the element) and the four bytes of the element. Reading these six bytes
  back, \<open>read_size\<close> finds 24 larger than the 4 bytes that remain, moves to the end and
  returns 0: the decoded vector is empty.
\<close>

theorem simple_container_round_trip_fails:
  "sstl_save (put (SSeq 4 24 [[0, 0, 0, 1]])) = [5, 24, 0, 0, 0, 1] \<and>
   get_seq 4 None [] (reading_context [5, 24, 0, 0, 0, 1]) =
     ([], \<lparr>mem = [5, 24, 0, 0, 0, 1], cur = Some 6, cend = 6, psize = 0, overrun = False\<rparr>)"
proof -
  let ?x = "SSeq 4 24 [[0, 0, 0, 1]]"
  have e: "encode_all [?x] = [5, 24, 0, 0, 0, 1]"
    by (simp add: type_sized_def size_bytes_def b_u8_sized_def)
  have p: "psize (put_all [?x] probing_context) = 6"
    by (simp only: probe_size e) simp
  have w: "put_all [?x] (writing_context ([] @ replicate 6 0) (length ([] :: bytes)) 6) =
      \<lparr>mem = [] @ encode_all [?x], cur = Some (length ([] :: bytes) + 6),
       cend = length ([] :: bytes) + 6, psize = 6, overrun = False\<rparr>"
    by (rule write_result) (simp only: e, simp)
  have "sstl_save (put_all [?x]) = [5, 24, 0, 0, 0, 1]"
    unfolding sstl_save_def sstl_append_def Let_def p w e by simp
  moreover have "put_all [?x] = put ?x" by (rule ext) simp
  ultimately have s: "sstl_save (put ?x) = [5, 24, 0, 0, 0, 1]" by simp
  let ?c = "reading_context [5, 24, 0, 0, 0, 1]"
  let ?c1 = "\<lparr>mem = [5, 24, 0, 0, 0, 1], cur = Some 6, cend = 6, psize = 0, overrun = False\<rparr>"
  have sz: "read_size b_u8_sized (advance 1 ?c) = (0, ?c1)"
    by (simp add: read_size_def size_width_def rd_read_def remaining_def rd_pos_def advance_def
        to_end_def reading_context_def be_word_def b_u8_sized_def b_u8_value_def Let_def)
  have "get_seq 4 None [] ?c = ([], ?c1)"
  proof (rule get_seq_wide [where n = 0 and ?c1.0 = ?c1 and b = b_u8_sized, THEN trans])
    show "remaining ?c \<noteq> 0" by (simp add: remaining_def rd_pos_def reading_context_def)
    show "rd_peek ?c = Some b_u8_sized"
      by (simp add: rd_peek_def rd_pos_def reading_context_def b_u8_sized_def)
    show "b_u8_sized = b_u8_sized \<or> b_u8_sized = b_u32_sized \<or> b_u8_sized = b_u64_sized" by simp
    show "read_size b_u8_sized (advance 1 ?c) = (0, ?c1)" by (rule sz)
    show "(4 :: nat) \<noteq> 1" by simp
    show "(case read_elems (rd_pos ?c1 + 4 * 0) 4 (container_resize None 4 0) ?c1 of
            (arg2, c2) \<Rightarrow> (arg2, c2\<lparr>cur := Some (rd_pos ?c1 + 4 * 0)\<rparr>)) = ([], ?c1)"
      by (simp add: container_resize_def rd_pos_def)
  qed
  with s show ?thesis by simp
qed

section \<open>The keyed map on blocks (\<open>ssdb::umap\<close>)\<close>

subsection \<open>Blocks, controls and the state of the map\<close>

text \<open>
  A block of the view carries a \<open>block_layout\<close>: four big-endian 64-bit words and 4032
  bytes of data. \<open>layout_bytes\<close> and \<open>layout_of\<close> are the two directions of the
  \<open>reinterpret_cast\<close> between the struct and the 4064 bytes handed to the view.

  The key and value types of \<open>umap\<close> enter through \<open>params\<close>: their traversals in writing
  and reading mode and the value-initialised value, together with the cipher of the view
  and the keyed hash of \<open>combined_hash\<close> (HMAC-SHA-512 under the salt, OpenSSL's). The
  unordered map is a list of items with the control block and the value of each key.
\<close>

record block_layout =
  blk_order :: u64
  blk_size :: u64
  blk_x10 :: u64
  blk_x18 :: u64
  blk_data :: bytes

definition data_len :: nat where
  "data_len = 4032"

definition zero_block :: block_layout where
  "zero_block = \<lparr>blk_order = 0, blk_size = 0, blk_x10 = 0, blk_x18 = 0,
                  blk_data = replicate data_len 0\<rparr>"

definition layout_bytes :: "block_layout \<Rightarrow> bytes" where
  "layout_bytes b = be64 (blk_order b) @ be64 (blk_size b) @ be64 (blk_x10 b) @ be64 (blk_x18 b) @ blk_data b"

definition layout_of :: "bytes \<Rightarrow> block_layout" where
  "layout_of p =
     \<lparr>blk_order = be_word (take 8 p), blk_size = be_word (take 8 (drop 8 p)),
      blk_x10 = be_word (take 8 (drop 16 p)), blk_x18 = be_word (take 8 (drop 24 p)),
      blk_data = drop 32 p\<rparr>"

record control =
  order :: u64
  load_block :: u32
  load_count :: u32
  new_block :: u32
  new_count :: u32

definition null_control :: control where
  "null_control = \<lparr>order = 0, load_block = 0, load_count = 0, new_block = 0, new_count = 0\<rparr>"

record ('k, 'v) params =
  cipher :: aead
  hmac :: "bytes \<Rightarrow> 512 word"
  put_key :: "'k \<Rightarrow> context_data \<Rightarrow> context_data"
  put_val :: "'v \<Rightarrow> context_data \<Rightarrow> context_data"
  get_key :: "context_data \<Rightarrow> 'k \<times> context_data"
  get_val :: "context_data \<Rightarrow> 'v \<times> context_data"
  default_val :: "'v"

type_synonym ('k, 'v) item = "'k \<times> control \<times> 'v"

record ('k, 'v) umap =
  m_map :: "('k, 'v) item list"
  m_free :: free_map
  m_data :: view
  m_error :: u32
  m_lastf :: u32
  m_order :: u64
  m_flush :: u64
  m_hash :: "512 word"

subsection \<open>Writing an item and completing a flush\<close>

text \<open>
  \<open>xor_order\<close> combines the hash of the 16 bytes \<open>order, pos\<close> into the accumulator.
  \<open>dirty\<close> takes the contribution of an item out and marks it as to be written.
  \<open>umap_write\<close> is \<open>write\<close>: it encodes the item, reserves a run of blocks
  (\<open>reserve_run\<close>, which throws when \<open>get_free\<close> does), and writes the blocks one by
  one (\<open>write_blocks\<close>, with \<open>fill_block\<close> for the copy into the block buffer, which is
  reused from block to block); the first failing write undoes the reservation.
\<close>

definition xor_order :: "('k, 'v) params \<Rightarrow> u64 \<Rightarrow> u64 \<Rightarrow> 512 word \<Rightarrow> 512 word" where
  "xor_order P ord pos h = h XOR hmac P (be64 ord @ be64 pos)"

definition head_block :: "control \<Rightarrow> u32" where
  "head_block c = (if new_count c \<noteq> 0 then new_block c else load_block c)"

definition dirty :: "('k, 'v) params \<Rightarrow> ('k, 'v) umap \<Rightarrow> ('k, 'v) item \<Rightarrow> ('k, 'v) umap \<times> ('k, 'v) item" where
  "dirty P st item =
     (case item of (k, ctrl, v) \<Rightarrow>
        if order ctrl \<noteq> 0
        then (st\<lparr>m_hash := xor_order P (order ctrl) (ucast (head_block ctrl)) (m_hash st)\<rparr>,
              (k, ctrl\<lparr>order := 0\<rparr>, v))
        else (st, item))"

definition fill_block :: "bytes \<Rightarrow> u32 \<Rightarrow> u64 \<Rightarrow> nat \<Rightarrow> block_layout \<Rightarrow> block_layout" where
  "fill_block buf count ord i sbuf =
     (let n = min (length buf - i * data_len) data_len;
          d1 = take n (drop (i * data_len) buf) @ drop n (blk_data sbuf);
          d2 = (if i \<noteq> 0 \<and> of_nat i = count - 1
                then let off = length buf - i * data_len;
                         z = unat count * data_len - length buf
                     in take off d1 @ replicate z 0 @ drop (off + z) d1
                else d1)
      in sbuf\<lparr>blk_order := ord,
               blk_size := (if i = 0 then of_nat (length buf) else - 1),
               blk_data := d2\<rparr>)"

fun write_blocks ::
  "aead \<Rightarrow> bytes \<Rightarrow> u32 \<Rightarrow> u64 \<Rightarrow> u32 \<Rightarrow> nat list \<Rightarrow> block_layout \<Rightarrow> view \<Rightarrow> bool \<times> view" where
  "write_blocks cph buf count ord nb [] sbuf v = (True, v)"
| "write_blocks cph buf count ord nb (i # rest) sbuf v =
     (let sbuf1 = fill_block buf count ord i sbuf
      in case write_block cph v (ucast (nb + of_nat i)) (layout_bytes sbuf1) 0 of
           (True, v1) \<Rightarrow> write_blocks cph buf count ord nb rest sbuf1 v1
         | (False, v1) \<Rightarrow> (False, v1))"

definition item_bytes :: "('k, 'v) params \<Rightarrow> 'k \<Rightarrow> 'v \<Rightarrow> bytes" where
  "item_bytes P k v = sstl_save (\<lambda>ctx. put_val P v (put_key P k ctx))"

definition block_count :: "bytes \<Rightarrow> u32" where
  "block_count buf =
     of_nat (length buf div data_len) + (if length buf mod data_len \<noteq> 0 then 1 else 0)"

definition reserve_run ::
  "u32 \<Rightarrow> ('k, 'v) umap \<Rightarrow> control \<Rightarrow> error + ('k, 'v) umap \<times> control" where
  "reserve_run count st ctrl =
     (if new_count ctrl \<noteq> count
      then (case get_free count (add_free (new_block ctrl) (new_count ctrl) (m_free st)) of
              Inl e \<Rightarrow> Inl e
            | Inr (pos, fm) \<Rightarrow>
                Inr (st\<lparr>m_free := fm\<rparr>, ctrl\<lparr>new_block := pos, new_count := count\<rparr>))
      else Inr (st, ctrl))"

definition umap_write ::
  "('k, 'v) params \<Rightarrow> ('k, 'v) umap \<Rightarrow> ('k, 'v) item \<Rightarrow> error + ('k, 'v) umap \<times> ('k, 'v) item" where
  "umap_write P st item =
     (let buf = item_bytes P (fst item) (snd (snd item));
          count = block_count buf;
          (st1, (k, ctrl1, v)) = dirty P st item;
          st2 = st1\<lparr>m_order := m_order st1 + 1\<rparr>;
          ctrl2 = ctrl1\<lparr>order := m_order st2\<rparr>
      in case reserve_run count st2 ctrl2 of
           Inl e \<Rightarrow> Inl e
         | Inr (st3, ctrl3) \<Rightarrow>
             let st4 = st3\<lparr>m_hash := xor_order P (order ctrl3) (ucast (new_block ctrl3)) (m_hash st3)\<rparr>
             in case write_blocks (cipher P) buf count (order ctrl3) (new_block ctrl3)
                       [0..<unat count] zero_block (m_data st4) of
                  (True, v1) \<Rightarrow> Inr (st4\<lparr>m_data := v1\<rparr>, (k, ctrl3, v))
                | (False, v1) \<Rightarrow>
                    Inr (st4\<lparr>m_data := v1,
                             m_free := add_free (new_block ctrl3) (new_count ctrl3) (m_free st4),
                             m_hash := xor_order P (order ctrl3) (ucast (new_block ctrl3)) (m_hash st4),
                             m_error := m_error st4 OR 64,
                             m_order := m_order st4 - 1\<rparr>,
                         (k, ctrl3\<lparr>new_block := 0, new_count := 0, order := 0\<rparr>, v)))"

text \<open>
  The loop \<open>for (auto& item : m_map) if (!item.second.first.order) write(item);\<close> of
  the writer's destructor and of \<open>finalize\<close>: \<open>done\<close> are the items already visited.
\<close>

fun write_dirty ::
  "('k, 'v) params \<Rightarrow> ('k, 'v) umap \<Rightarrow> ('k, 'v) item list \<Rightarrow> ('k, 'v) item list \<Rightarrow>
     error + ('k, 'v) umap \<times> ('k, 'v) item list" where
  "write_dirty P st done [] = Inr (st, done)"
| "write_dirty P st done (item # rest) =
     (if order (fst (snd item)) = 0
      then (case umap_write P st item of
              Inl e \<Rightarrow> Inl e
            | Inr (st1, item1) \<Rightarrow> write_dirty P st1 (done @ [item1]) rest)
      else write_dirty P st (done @ [item]) rest)"

definition view_flush :: "view \<Rightarrow> view" where
  "view_flush v = v"

definition term_block :: "u64 \<Rightarrow> 512 word \<Rightarrow> block_layout" where
  "term_block ord h =
     zero_block\<lparr>blk_order := ord,
                blk_data := be_bytes 64 h @ drop 64 (blk_data zero_block)\<rparr>"

definition promote :: "free_map \<Rightarrow> ('k, 'v) item \<Rightarrow> free_map \<times> ('k, 'v) item" where
  "promote fm item =
     (case item of (k, ctrl, v) \<Rightarrow>
        if new_count ctrl \<noteq> 0
        then (add_free (load_block ctrl) (load_count ctrl) fm,
              (k, ctrl\<lparr>load_block := new_block ctrl, load_count := new_count ctrl,
                        new_block := 0, new_count := 0\<rparr>, v))
        else (fm, item))"

fun promote_all :: "free_map \<Rightarrow> ('k, 'v) item list \<Rightarrow> free_map \<times> ('k, 'v) item list" where
  "promote_all fm [] = (fm, [])"
| "promote_all fm (item # rest) =
     (case promote fm item of
        (fm1, item1) \<Rightarrow> (case promote_all fm1 rest of (fm2, rest1) \<Rightarrow> (fm2, item1 # rest1)))"

definition finalize :: "('k, 'v) params \<Rightarrow> ('k, 'v) umap \<Rightarrow> error + ('k, 'v) umap" where
  "finalize P st =
     (if m_order st \<le> m_flush st then Inr st
      else
        case write_dirty P st [] (m_map st) of
          Inl e \<Rightarrow> Inl e
        | Inr (st1, items) \<Rightarrow>
            let st2 = st1\<lparr>m_map := items, m_data := view_flush (m_data st1)\<rparr>
            in case get_free 1 (m_free st2) of
                 Inl e \<Rightarrow> Inl e
               | Inr (new_pos, fm) \<Rightarrow>
                   let st3 = st2\<lparr>m_free := fm, m_order := m_order st2 + 1\<rparr>;
                       term = term_block (m_order st3) (m_hash st3)
                   in case write_block (cipher P) (m_data st3) (ucast new_pos) (layout_bytes term) 0 of
                        (False, v1) \<Rightarrow>
                          Inr (st3\<lparr>m_data := v1, m_order := m_order st3 - 1,
                                   m_error := m_error st3 OR 128,
                                   m_free := add_free new_pos 1 (m_free st3)\<rparr>)
                      | (True, v1) \<Rightarrow>
                          let st4 = st3\<lparr>m_data := view_flush v1,
                                        m_free := add_free (m_lastf st3) 1 (m_free st3),
                                        m_lastf := new_pos,
                                        m_flush := m_order st3\<rparr>
                          in case promote_all (m_free st4) (m_map st4) of
                               (fm1, items1) \<Rightarrow> Inr (st4\<lparr>m_free := fm1, m_map := items1\<rparr>))"

subsection \<open>The writer\<close>

text \<open>
  A writer is the map together with its \<open>m_modify\<close> flag. \<open>writer_index\<close> is
  \<open>operator[]\<close> followed by an update \<open>f\<close> of the value through the pointer it returns,
  \<open>writer_add\<close> is \<open>add\<close> (with \<open>Modify = true\<close>) likewise, and \<open>writer_close\<close> is the
  destructor, for a writer made by \<open>write\<close> (no flush) or by \<open>flush\<close>.
\<close>

fun dirty_at ::
  "('k, 'v) params \<Rightarrow> 'k \<Rightarrow> ('v \<Rightarrow> 'v) \<Rightarrow> ('k, 'v) umap \<Rightarrow> ('k, 'v) item list \<Rightarrow>
     (('k, 'v) umap \<times> ('k, 'v) item list) option" where
  "dirty_at P key f st [] = None"
| "dirty_at P key f st (item # rest) =
     (if fst item = key
      then (case dirty P st item of (st1, (k, ctrl, v)) \<Rightarrow> Some (st1, (k, ctrl, f v) # rest))
      else (case dirty_at P key f st rest of
              None \<Rightarrow> None
            | Some (st1, rest1) \<Rightarrow> Some (st1, item # rest1)))"

definition writer_index ::
  "('k, 'v) params \<Rightarrow> 'k \<Rightarrow> ('v \<Rightarrow> 'v) \<Rightarrow> ('k, 'v) umap \<times> bool \<Rightarrow> ('k, 'v) umap \<times> bool" where
  "writer_index P key f w =
     (case w of (st, m_modify) \<Rightarrow>
        (case dirty_at P key f st (m_map st) of
           None \<Rightarrow> (st, m_modify)
         | Some (st1, items) \<Rightarrow> (st1\<lparr>m_map := items\<rparr>, True)))"

definition writer_add ::
  "('k, 'v) params \<Rightarrow> 'k \<Rightarrow> 'v \<Rightarrow> ('v \<Rightarrow> 'v) \<Rightarrow> ('k, 'v) umap \<times> bool \<Rightarrow> ('k, 'v) umap \<times> bool" where
  "writer_add P key v0 f w =
     (case w of (st, m_modify) \<Rightarrow>
        (case dirty_at P key f st (m_map st) of
           None \<Rightarrow> (st\<lparr>m_map := m_map st @ [(key, null_control, f v0)]\<rparr>, True)
         | Some (st1, items) \<Rightarrow> (st1\<lparr>m_map := items\<rparr>, True)))"

definition writer_close ::
  "('k, 'v) params \<Rightarrow> bool \<Rightarrow> ('k, 'v) umap \<times> bool \<Rightarrow> error + ('k, 'v) umap" where
  "writer_close P flush_flag w =
     (case w of (st, m_modify) \<Rightarrow>
        (case (if m_modify then write_dirty P st [] (m_map st) else Inr (st, m_map st)) of
           Inl e \<Rightarrow> Inl e
         | Inr (st1, items) \<Rightarrow>
             let st2 = st1\<lparr>m_map := items\<rparr>
             in if flush_flag then finalize P st2 else Inr st2))"

subsection \<open>Reloading\<close>

definition int64_max :: u64 where
  "int64_max = 0x7FFFFFFFFFFFFFFF"

definition set_error :: "u32 \<Rightarrow> ('k, 'v) umap \<Rightarrow> ('k, 'v) umap" where
  "set_error e st = st\<lparr>m_error := m_error st OR e\<rparr>"

definition free_blocks :: "u32 \<Rightarrow> u32 \<Rightarrow> ('k, 'v) umap \<Rightarrow> ('k, 'v) umap" where
  "free_blocks block count st = st\<lparr>m_free := add_free block count (m_free st)\<rparr>"

text \<open>
  The loop that collects the continuation blocks of a record. \<open>i\<close> is the index of the
  outer loop, which this loop advances together with its own \<open>j\<close>; it reads block \<open>i\<close>.
  The result is \<open>i\<close>, the size still missing, the buffer, the last block read and the
  state.
\<close>

function cont_loop ::
  "('k, 'v) params \<Rightarrow> u32 \<Rightarrow> u64 \<Rightarrow> u32 \<Rightarrow> u32 \<Rightarrow> u32 \<Rightarrow> nat \<Rightarrow> bytes \<Rightarrow> block_layout \<Rightarrow>
     ('k, 'v) umap \<Rightarrow> u32 \<times> nat \<times> bytes \<times> block_layout \<times> ('k, 'v) umap" where
  "cont_loop P count ord blk i j sz buf sbuf st =
     (if data_len < sz \<and> j < count
      then (case read_block (cipher P) (m_data st) (ucast i) 0 of
              (None, v1) \<Rightarrow>
                (i, sz, buf, sbuf,
                 free_blocks blk ((i + 1) - blk) (set_error 8 (st\<lparr>m_data := v1\<rparr>)))
            | (Some payload, v1) \<Rightarrow>
                let sbuf1 = layout_of payload
                in if blk_order sbuf1 \<noteq> ord \<or> blk_size sbuf1 \<noteq> - 1
                   then (i, sz, buf, sbuf1,
                         free_blocks blk ((i + 1) - blk) (set_error 8 (st\<lparr>m_data := v1\<rparr>)))
                   else cont_loop P count ord blk (i + 1) (j + 1) (sz - min sz data_len)
                          (buf @ take (min sz data_len) (blk_data sbuf1)) sbuf1
                          (st\<lparr>m_data := v1\<rparr>))
      else (i, sz, buf, sbuf, st))"
  by pat_completeness auto
termination
proof (relation "measure (\<lambda>(P, count, ord, blk, i, j, sz, buf, sbuf, st). unat count - unat j)")
  show "wf (measure (\<lambda>(P, count, ord, blk, i, j, sz, buf, sbuf, st). unat count - unat j))"
    by simp
next
  fix P :: "('k, 'v) params" and count :: u32 and ord :: u64 and blk i j :: u32 and sz :: nat
    and buf :: bytes and sbuf :: block_layout and st :: "('k, 'v) umap"
    and x :: "bytes option \<times> view" and a v1 payload sbuf1
  assume "data_len < sz \<and> j < count"
  then have lt: "unat j < unat count" by (simp add: word_less_nat_alt)
  then have "unat j + 1 < 2 ^ 32" using unsigned_less [of count, where 'a = nat] by simp
  then have "unat (j + 1) = unat j + 1" by (simp add: unat_add_lem [THEN iffD1])
  then show "((P, count, ord, blk, i + 1, j + 1, sz - min sz data_len,
        buf @ take (min sz data_len) (blk_data sbuf1), sbuf1, st\<lparr>m_data := v1\<rparr>),
       P, count, ord, blk, i, j, sz, buf, sbuf, st)
      \<in> measure (\<lambda>(P, count, ord, blk, i, j, sz, buf, sbuf, st). unat count - unat j)"
    using lt by simp
qed

text \<open>
  The part of the loop body of \<open>reload\<close> that follows a record read completely: the key is
  looked up or inserted with a null control, and the record replaces what the map has
  for that key if its order is larger. \<open>sord\<close> is the order of the block read last.
\<close>

definition load_record ::
  "('k, 'v) params \<Rightarrow> u64 \<Rightarrow> u32 \<Rightarrow> u32 \<Rightarrow> u64 \<Rightarrow> 'k \<Rightarrow> context_data \<Rightarrow> ('k, 'v) umap \<Rightarrow>
     ('k, 'v) umap" where
  "load_record P ord blk cnt sord key ctx1 st =
     (let items = (if key \<in> fst ` set (m_map st) then m_map st
                   else m_map st @ [(key, null_control, default_val P)])
      in case map_of items key of
           None \<Rightarrow> st
         | Some (ctrl, v) \<Rightarrow>
             if order ctrl < ord
             then
               let st1 = (if order ctrl \<noteq> 0
                          then st\<lparr>m_hash := xor_order P (order ctrl) (ucast (load_block ctrl)) (m_hash st),
                                  m_free := add_free (load_block ctrl) (load_count ctrl) (m_free st)\<rparr>
                          else st);
                   ctrl1 = ctrl\<lparr>order := ord, load_block := blk, load_count := cnt\<rparr>
               in st1\<lparr>m_map := map (\<lambda>it. if fst it = key
                                           then (key, ctrl1, fst (get_val P ctx1)) else it) items,
                       m_hash := xor_order P sord (ucast blk) (m_hash st1)\<rparr>
             else free_blocks blk cnt (st\<lparr>m_map := items\<rparr>))"

text \<open>
  The body of the scanning loop of \<open>reload\<close> for the block at index \<open>i\<close>. It returns the
  index (which the continuation loop may have advanced), the terminator hash seen last
  and the state. \<open>scan_term\<close> handles a terminator, \<open>scan_data\<close> the first block of a
  record.
\<close>

definition scan_term ::
  "u32 \<Rightarrow> bytes \<Rightarrow> u64 \<Rightarrow> block_layout \<Rightarrow> ('k, 'v) umap \<Rightarrow> u32 \<times> bytes \<times> ('k, 'v) umap" where
  "scan_term i last_hash ord sbuf st1 =
     (if m_flush st1 = - 1 \<and> m_order st1 < ord
      then (i, take 64 (blk_data sbuf),
            (free_blocks (m_lastf st1) 1 st1)\<lparr>m_order := ord, m_lastf := i\<rparr>)
      else if m_flush st1 = ord
      then (i, take 64 (blk_data sbuf), st1\<lparr>m_lastf := i\<rparr>)
      else (i, last_hash, free_blocks i 1 st1))"

definition scan_data ::
  "('k, 'v) params \<Rightarrow> u32 \<Rightarrow> u32 \<Rightarrow> bytes \<Rightarrow> u64 \<Rightarrow> block_layout \<Rightarrow> ('k, 'v) umap \<Rightarrow>
     u32 \<times> bytes \<times> ('k, 'v) umap" where
  "scan_data P count i last_hash ord sbuf st1 =
     (let sz = unat (blk_size sbuf)
      in case cont_loop P count ord i i (i + 1) (sz - min sz data_len)
                (take (min sz data_len) (blk_data sbuf)) sbuf st1 of
           (i1, sz2, buf1, sbuf1, st2) \<Rightarrow>
             if sz2 \<noteq> 0 then (i1, last_hash, set_error 16 st2)
             else
               (case get_key P (reading_context buf1) of
                  (key, ctx1) \<Rightarrow>
                    (i1, last_hash,
                     load_record P ord i ((i1 + 1) - i) (blk_order sbuf1) key ctx1 st2)))"

definition scan_block ::
  "('k, 'v) params \<Rightarrow> u32 \<Rightarrow> u32 \<Rightarrow> bytes \<Rightarrow> ('k, 'v) umap \<Rightarrow> u32 \<times> bytes \<times> ('k, 'v) umap" where
  "scan_block P count i last_hash st =
     (case read_block (cipher P) (m_data st) (ucast i) 0 of
        (None, v1) \<Rightarrow> (i, last_hash, free_blocks i 1 (set_error 1 (st\<lparr>m_data := v1\<rparr>)))
      | (Some payload, v1) \<Rightarrow>
          let st0 = st\<lparr>m_data := v1\<rparr>;
              sbuf = layout_of payload;
              ord = blk_order sbuf
          in if int64_max \<le> ord - 1 then (i, last_hash, free_blocks i 1 (set_error 2 st0))
             else if 2 ^ 31 \<le> blk_size sbuf
             then (i, last_hash,
                   free_blocks i 1 (if blk_size sbuf \<noteq> - 1 then set_error 2 st0 else st0))
             else
               let st1 = (if m_flush st0 \<noteq> - 1 \<and> m_order st0 < ord
                          then st0\<lparr>m_order := ord\<rparr> else st0)
               in if m_flush st1 < ord then (i, last_hash, free_blocks i 1 (set_error 4 st1))
                  else if blk_size sbuf = 0 then scan_term i last_hash ord sbuf st1
                  else scan_data P count i last_hash ord sbuf st1)"

lemma cont_loop_index:
  assumes "unat j = unat i + 1" and "unat i < unat count"
    and "cont_loop P count ord blk i j sz buf sbuf st = (i1, r)"
  shows "unat i \<le> unat i1 \<and> unat i1 < unat count"
  using assms
proof (induction P count ord blk i j sz buf sbuf st rule: cont_loop.induct)
  case (1 P count ord blk i j sz buf sbuf st)
  note unfold = cont_loop.simps [of P count ord blk i j sz buf sbuf st]
  show ?case
  proof (cases "data_len < sz \<and> j < count")
    case False
    have "(i, sz, buf, sbuf, st) = (i1, r)"
      using "1.prems"(3) unfolding unfold if_not_P [OF False] .
    then show ?thesis using "1.prems"(2) by simp
  next
    case True
    note step = "1.prems"(3) [unfolded unfold if_P [OF True]]
    obtain r0 v1 where rb: "read_block (cipher P) (m_data st) (ucast i) 0 = (r0, v1)"
      by (cases "read_block (cipher P) (m_data st) (ucast i) 0") auto
    show ?thesis
    proof (cases r0)
      case None
      then show ?thesis using step rb "1.prems"(2) by simp
    next
      case (Some payload)
      show ?thesis
      proof (cases "blk_order (layout_of payload) \<noteq> ord \<or> blk_size (layout_of payload) \<noteq> - 1")
        case bad: True
        then show ?thesis using step rb Some "1.prems"(2) by (auto simp: Let_def)
      next
        case good: False
        have jc: "unat j < unat count" using True by (simp add: word_less_nat_alt)
        then have "unat j + 1 < 2 ^ 32" using unsigned_less [of count, where 'a = nat] by simp
        then have j1: "unat (j + 1) = unat j + 1" by (simp add: unat_add_lem [THEN iffD1])
        have "unat i + 1 < 2 ^ 32" using jc "1.prems"(1) unsigned_less [of count, where 'a = nat] by simp
        then have i1: "unat (i + 1) = unat i + 1" by (simp add: unat_add_lem [THEN iffD1])
        have rec: "cont_loop P count ord blk (i + 1) (j + 1) (sz - min sz data_len)
              (buf @ take (min sz data_len) (blk_data (layout_of payload))) (layout_of payload)
              (st\<lparr>m_data := v1\<rparr>) = (i1, r)"
          using step rb Some good by (simp add: Let_def)
        have "unat (i + 1) \<le> unat i1 \<and> unat i1 < unat count"
        proof (rule "1.IH" [OF True rb [symmetric] Some refl _ _ _ rec])
          show "\<not> (blk_order (layout_of payload) \<noteq> ord \<or> blk_size (layout_of payload) \<noteq> - 1)"
            by (rule good)
          show "unat (j + 1) = unat (i + 1) + 1" using j1 i1 "1.prems"(1) by simp
          show "unat (i + 1) < unat count" using i1 jc "1.prems"(1) by simp
        qed
        then show ?thesis using i1 by simp
      qed
    qed
  qed
qed

lemma scan_term_index: "fst (scan_term i lh ord sbuf st) = i"
  by (simp add: scan_term_def)

lemma scan_data_index:
  assumes "unat i < unat count"
  shows "unat i \<le> unat (fst (scan_data P count i lh ord sbuf st)) \<and>
         unat (fst (scan_data P count i lh ord sbuf st)) < unat count"
proof -
  have "unat i + 1 < 2 ^ 32" using assms unsigned_less [of count, where 'a = nat] by simp
  then have i1: "unat (i + 1) = unat i + 1" by (simp add: unat_add_lem [THEN iffD1])
  let ?sz = "unat (blk_size sbuf)"
  obtain x sz2 buf1 sbuf1 st2
    where cl: "cont_loop P count ord i i (i + 1) (?sz - min ?sz data_len)
                (take (min ?sz data_len) (blk_data sbuf)) sbuf st = (x, sz2, buf1, sbuf1, st2)"
    by (metis prod_cases5)
  have "unat i \<le> unat x \<and> unat x < unat count"
    using cont_loop_index [OF i1 assms cl] .
  moreover have "fst (scan_data P count i lh ord sbuf st) = x"
    using cl by (simp add: scan_data_def Let_def split: prod.splits)
  ultimately show ?thesis by simp
qed

lemma scan_block_index:
  assumes "unat i < unat count" and "scan_block P count i lh st = (i1, r)"
  shows "unat i \<le> unat i1 \<and> unat i1 < unat count"
proof -
  have "fst (scan_block P count i lh st) = i \<or>
      (\<exists>lh' ord sbuf st'. fst (scan_block P count i lh st) = fst (scan_data P count i lh' ord sbuf st'))"
    by (simp add: scan_block_def Let_def scan_term_index split: prod.splits option.splits) blast
  then show ?thesis using assms scan_data_index [OF assms(1)] by (metis fst_conv order_refl)
qed

text \<open>
  The scanning loop of \<open>reload\<close> from block \<open>i\<close> on. It ends because the index returned
  by the body stays below \<open>count\<close>.
\<close>

function scan ::
  "('k, 'v) params \<Rightarrow> u32 \<Rightarrow> u32 \<Rightarrow> bytes \<Rightarrow> ('k, 'v) umap \<Rightarrow> bytes \<times> ('k, 'v) umap" where
  "scan P count i last_hash st =
     (if i < count
      then (case scan_block P count i last_hash st of
              (i1, last_hash1, st1) \<Rightarrow> scan P count (i1 + 1) last_hash1 st1)
      else (last_hash, st))"
  by pat_completeness auto
termination
proof (relation "measure (\<lambda>(P, count, i, last_hash, st). unat count - unat i)")
  show "wf (measure (\<lambda>(P, count, i, last_hash, st). unat count - unat i))" by simp
next
  fix P :: "('k, 'v) params" and count i :: u32 and last_hash :: bytes and st :: "('k, 'v) umap"
    and i1 :: u32 and y last_hash1 and st1 :: "('k, 'v) umap"
  assume lt: "i < count" and sb: "(i1, y) = scan_block P count i last_hash st"
    and y: "(last_hash1, st1) = y"
  have "unat i \<le> unat i1 \<and> unat i1 < unat count"
    using scan_block_index [of i count P last_hash st i1 y] lt sb by (simp add: word_less_nat_alt)
  moreover from this have "unat i1 + 1 < 2 ^ 32"
    using unsigned_less [of count, where 'a = nat] by simp
  then have "unat (i1 + 1) = unat i1 + 1" by (simp add: unat_add_lem [THEN iffD1])
  ultimately have "unat count - unat (i1 + 1) < unat count - unat i" by linarith
  then show "((P, count, i1 + 1, last_hash1, st1), P, count, i, last_hash, st)
      \<in> measure (\<lambda>(P, count, i, last_hash, st). unat count - unat i)"
    by simp
qed

definition reload_scan :: "('k, 'v) params \<Rightarrow> ('k, 'v) umap \<Rightarrow> bytes \<times> ('k, 'v) umap" where
  "reload_scan P st =
     (let count = (ucast ((m_count (m_data st) * 4064) div 4064) :: u32);
          st0 = free_blocks count (0 - count)
                  (st\<lparr>m_map := [], m_free := [], m_hash := 0, m_order := 0, m_lastf := - 1\<rparr>)
      in scan P count 0 (replicate 64 0) st0)"

definition hash_check :: "('k, 'v) umap \<Rightarrow> bytes \<Rightarrow> bool" where
  "hash_check st src \<longleftrightarrow> be_bytes 64 (m_hash st) = src"

lemma cont_loop_frame:
  assumes "cont_loop P count ord blk i j sz buf sbuf st = (i1, sz1, buf1, sbuf1, st1)"
  shows "m_flush st1 = m_flush st \<and> m_order st1 = m_order st \<and> m_map st1 = m_map st \<and>
         m_hash st1 = m_hash st \<and> m_lastf st1 = m_lastf st"
  using assms
proof (induction P count ord blk i j sz buf sbuf st rule: cont_loop.induct)
  case (1 P count ord blk i j sz buf sbuf st)
  note unfold = cont_loop.simps [of P count ord blk i j sz buf sbuf st]
  show ?case
  proof (cases "data_len < sz \<and> j < count")
    case False
    have "(i, sz, buf, sbuf, st) = (i1, sz1, buf1, sbuf1, st1)"
      using "1.prems" unfolding unfold if_not_P [OF False] .
    then show ?thesis by simp
  next
    case True
    note step = "1.prems" [unfolded unfold if_P [OF True]]
    obtain r0 v1 where rb: "read_block (cipher P) (m_data st) (ucast i) 0 = (r0, v1)"
      by (cases "read_block (cipher P) (m_data st) (ucast i) 0") auto
    show ?thesis
    proof (cases r0)
      case None
      then show ?thesis using step rb by (auto simp: free_blocks_def set_error_def)
    next
      case (Some payload)
      show ?thesis
      proof (cases "blk_order (layout_of payload) \<noteq> ord \<or> blk_size (layout_of payload) \<noteq> - 1")
        case bad: True
        then show ?thesis using step rb Some by (auto simp: Let_def free_blocks_def set_error_def)
      next
        case good: False
        have rec: "cont_loop P count ord blk (i + 1) (j + 1) (sz - min sz data_len)
              (buf @ take (min sz data_len) (blk_data (layout_of payload))) (layout_of payload)
              (st\<lparr>m_data := v1\<rparr>) = (i1, sz1, buf1, sbuf1, st1)"
          using step rb Some good by (simp add: Let_def)
        show ?thesis
          using "1.IH" [OF True rb [symmetric] Some refl good rec] by simp
      qed
    qed
  qed
qed

lemma load_record_frame:
  "m_flush (load_record P ord blk cnt sord key ctx1 st) = m_flush st \<and>
   m_order (load_record P ord blk cnt sord key ctx1 st) = m_order st \<and>
   m_lastf (load_record P ord blk cnt sord key ctx1 st) = m_lastf st"
proof -
  define items where "items = (if key \<in> fst ` set (m_map st) then m_map st
                   else m_map st @ [(key, null_control, default_val P)])"
  have unfold: "load_record P ord blk cnt sord key ctx1 st =
     (case map_of items key of
           None \<Rightarrow> st
         | Some (ctrl, v) \<Rightarrow>
             if order ctrl < ord
             then
               let st1 = (if order ctrl \<noteq> 0
                          then st\<lparr>m_hash := xor_order P (order ctrl) (ucast (load_block ctrl)) (m_hash st),
                                  m_free := add_free (load_block ctrl) (load_count ctrl) (m_free st)\<rparr>
                          else st);
                   ctrl1 = ctrl\<lparr>order := ord, load_block := blk, load_count := cnt\<rparr>
               in st1\<lparr>m_map := map (\<lambda>it. if fst it = key
                                           then (key, ctrl1, fst (get_val P ctx1)) else it) items,
                       m_hash := xor_order P sord (ucast blk) (m_hash st1)\<rparr>
             else free_blocks blk cnt (st\<lparr>m_map := items\<rparr>))"
    unfolding load_record_def items_def Let_def by (rule refl)
  show ?thesis
  proof (cases "map_of items key")
    case None
    then show ?thesis unfolding unfold by simp
  next
    case (Some cv)
    obtain ctrl v where cv: "cv = (ctrl, v)" by (cases cv)
    show ?thesis
      unfolding unfold Some cv
      by (cases "order ctrl < ord"; cases "order ctrl = 0") (simp_all add: free_blocks_def Let_def)
  qed
qed

lemma scan_data_frame:
  assumes "scan_data P count i lh ord sbuf st = (i1, lh1, st1)"
  shows "m_flush st1 = m_flush st \<and> m_order st1 = m_order st \<and> m_lastf st1 = m_lastf st"
proof -
  define sz where "sz = unat (blk_size sbuf)"
  define r where "r = cont_loop P count ord i i (i + 1) (sz - min sz data_len)
                (take (min sz data_len) (blk_data sbuf)) sbuf st"
  obtain x sz2 buf1 sbuf1 st2 where r: "r = (x, sz2, buf1, sbuf1, st2)"
    by (cases r) blast
  have fr: "m_flush st2 = m_flush st \<and> m_order st2 = m_order st \<and> m_lastf st2 = m_lastf st"
    using cont_loop_frame [OF r [unfolded r_def]] by simp
  have unfold: "scan_data P count i lh ord sbuf st =
      (if sz2 \<noteq> 0 then (x, lh, set_error 16 st2)
       else (x, lh, load_record P ord i ((x + 1) - i) (blk_order sbuf1)
                      (fst (get_key P (reading_context buf1)))
                      (snd (get_key P (reading_context buf1))) st2))"
    unfolding scan_data_def Let_def sz_def [symmetric] r_def [symmetric] r
    by (simp add: case_prod_beta)
  show ?thesis
  proof (cases "sz2 = 0")
    case True
    then have "st1 = load_record P ord i ((x + 1) - i) (blk_order sbuf1)
                      (fst (get_key P (reading_context buf1)))
                      (snd (get_key P (reading_context buf1))) st2"
      using assms unfolding unfold by auto
    then show ?thesis using fr load_record_frame [of P ord i "(x + 1) - i" "blk_order sbuf1" _ _ st2]
      by simp
  next
    case False
    then have "st1 = set_error 16 st2" using assms unfolding unfold by simp
    then show ?thesis using fr by (simp add: set_error_def)
  qed
qed

definition order_ok :: "u64 \<Rightarrow> bool" where
  "order_ok x \<longleftrightarrow> x \<noteq> - 1"

lemma scan_block_flush:
  assumes "scan_block P count i lh st = (i1, lh1, st1)"
  shows "m_flush st1 = m_flush st"
proof -
  have sd: "\<And>lh ord sbuf st' x y z. scan_data P count i lh ord sbuf st' = (x, y, z) \<Longrightarrow>
      m_flush z = m_flush st'"
    using scan_data_frame by blast
  show ?thesis
    using assms
    by (auto simp: scan_block_def scan_term_def Let_def free_blocks_def set_error_def
        split: prod.splits option.splits if_splits dest!: sd)
qed

lemma scan_block_order:
  assumes "scan_block P count i lh st = (i1, lh1, st1)" and "m_flush st = - 1" and "order_ok (m_order st)"
  shows "order_ok (m_order st1)"
proof -
  have sd: "\<And>lh ord sbuf st' x y z. scan_data P count i lh ord sbuf st' = (x, y, z) \<Longrightarrow>
      m_order z = m_order st'"
    using scan_data_frame by blast
  have big: "\<And>ord :: u64. \<not> int64_max \<le> ord - 1 \<Longrightarrow> order_ok ord"
    by (auto simp: order_ok_def int64_max_def)
  show ?thesis
    using assms
    by (auto simp: scan_block_def scan_term_def Let_def free_blocks_def set_error_def
        split: prod.splits option.splits if_splits dest!: sd big)
qed

lemma scan_frame:
  assumes "scan P count i lh st = (lh1, st1)"
  shows "m_flush st1 = m_flush st \<and>
         (m_flush st = - 1 \<and> order_ok (m_order st) \<longrightarrow> order_ok (m_order st1))"
  using assms
proof (induction P count i lh st rule: scan.induct)
  case (1 P count i last_hash st)
  note unfold = scan.simps [of P count i last_hash st]
  show ?case
  proof (cases "i < count")
    case False
    then show ?thesis using "1.prems" unfolding unfold by simp
  next
    case True
    obtain i1 lh2 st2 where sb: "scan_block P count i last_hash st = (i1, lh2, st2)"
      by (cases "scan_block P count i last_hash st") auto
    have rec: "scan P count (i1 + 1) lh2 st2 = (lh1, st1)"
      using "1.prems" True sb unfolding unfold by simp
    have ih: "m_flush st1 = m_flush st2 \<and>
         (m_flush st2 = - 1 \<and> order_ok (m_order st2) \<longrightarrow> order_ok (m_order st1))"
      using "1.IH" [OF True sb [symmetric] refl rec] .
    have fl: "m_flush st2 = m_flush st" using scan_block_flush [OF sb] .
    show ?thesis using ih fl scan_block_order [OF sb] by simp
  qed
qed

definition pass_rank :: "('k, 'v) umap \<Rightarrow> nat" where
  "pass_rank st = (if m_flush st = - 1 then 2 else if m_flush st = - 2 then 0 else 1)"

lemma reload_scan_frame:
  assumes "reload_scan P st = (lh1, st1)"
  shows "m_flush st1 = m_flush st \<and> (m_flush st = - 1 \<longrightarrow> order_ok (m_order st1))"
  using scan_frame [OF assms [unfolded reload_scan_def Let_def]]
  by (simp add: free_blocks_def order_ok_def)

function reload :: "('k, 'v) params \<Rightarrow> ('k, 'v) umap \<Rightarrow> ('k, 'v) umap" where
  "reload P st =
     (case reload_scan P st of
        (last_hash, st1) \<Rightarrow>
          if m_flush st1 = - 1
          then (let st2 = st1\<lparr>m_flush := m_order st1\<rparr>
                in if \<not> hash_check st2 last_hash then reload P st2 else st2)
          else if m_flush st1 = - 2
          then st1\<lparr>m_flush := 0, m_error := m_error st1 OR 32\<rparr>
          else if \<not> hash_check st1 last_hash
          then reload P (st1\<lparr>m_flush := - 2\<rparr>)
          else st1\<lparr>m_flush := m_order st1\<rparr>)"
  by pat_completeness auto
termination
proof (relation "measure (\<lambda>(P, st). pass_rank st)")
  show "wf (measure (\<lambda>(P, st). pass_rank st))" by simp
next
  fix P :: "('k, 'v) params" and st :: "('k, 'v) umap" and last_hash and st1 st2 :: "('k, 'v) umap"
  assume rs: "(last_hash, st1) = reload_scan P st" and fl: "m_flush st1 = - 1"
    and st2: "st2 = st1\<lparr>m_flush := m_order st1\<rparr>"
  have "m_flush st = - 1 \<and> order_ok (m_order st1)"
    using reload_scan_frame [OF rs [symmetric]] fl by simp
  then have "pass_rank st2 < pass_rank st" by (simp add: st2 pass_rank_def order_ok_def)
  then show "((P, st2), P, st) \<in> measure (\<lambda>(P, st). pass_rank st)" by simp
next
  fix P :: "('k, 'v) params" and st :: "('k, 'v) umap" and last_hash and st1 :: "('k, 'v) umap"
  assume rs: "(last_hash, st1) = reload_scan P st" and "m_flush st1 \<noteq> - 1" "m_flush st1 \<noteq> - 2"
  then have "pass_rank (st1\<lparr>m_flush := - 2\<rparr>) < pass_rank st"
    using reload_scan_frame [OF rs [symmetric]] by (simp add: pass_rank_def)
  then show "((P, st1\<lparr>m_flush := - 2\<rparr>), P, st) \<in> measure (\<lambda>(P, st). pass_rank st)" by simp
qed

definition init :: "('k, 'v) params \<Rightarrow> view option \<Rightarrow> ('k, 'v) umap \<Rightarrow> error + ('k, 'v) umap" where
  "init P vo st =
     (let st0 = (case vo of Some v \<Rightarrow> st\<lparr>m_data := v\<rparr> | None \<Rightarrow> st);
          st1 = reload P (st0\<lparr>m_flush := - 1\<rparr>)
      in if m_lastf st1 = - 1 then finalize P st1 else Inr st1)"

subsection \<open>Opening an empty container\<close>

declare reload.simps [simp del] scan.simps [simp del] cont_loop.simps [simp del]

lemma be_bytes_zero: "be_bytes n (0 :: 'a::len word) = replicate n 0"
  by (induction n) (simp_all add: replicate_append_same)

lemma reload_scan_empty:
  assumes "m_count (m_data st) = 0"
  shows "reload_scan P st =
     (replicate 64 0, st\<lparr>m_map := [], m_free := [], m_hash := 0, m_order := 0, m_lastf := - 1\<rparr>)"
  by (simp add: reload_scan_def assms free_blocks_def add_free_def scan.simps [of _ 0])

lemma reload_empty:
  assumes "m_count (m_data st) = 0" and "m_flush st = - 1"
  shows "reload P st =
     st\<lparr>m_map := [], m_free := [], m_hash := 0, m_order := 0, m_lastf := - 1, m_flush := 0\<rparr>"
  by (subst reload.simps) (simp add: reload_scan_empty assms hash_check_def be_bytes_zero)

lemma init_no_blocks:
  assumes "m_count v = 0"
  shows "init P (Some v) st =
     Inr (st\<lparr>m_data := v, m_map := [], m_free := [], m_hash := 0, m_order := 0,
             m_lastf := - 1, m_flush := 0\<rparr>)"
proof -
  let ?st0 = "st\<lparr>m_data := v, m_flush := - 1\<rparr>"
  have "reload P ?st0 = ?st0\<lparr>m_map := [], m_free := [], m_hash := 0, m_order := 0, m_lastf := - 1, m_flush := 0\<rparr>"
    by (rule reload_empty) (simp_all add: assms)
  then show ?thesis by (simp add: init_def finalize_def)
qed

text \<open>
  Claim C4. \<open>init\<close> on a container without blocks, whatever the state of the map
  before: \<open>reload\<close> finds no terminator and leaves order and flush order at 0, so the
  \<open>finalize\<close> that \<open>init\<close> calls returns at once. \<open>init\<close> returns with \<open>m_lastf\<close> still
  \<open>2^32 - 1\<close> and the view as it was given: no terminator block has been written.
\<close>

theorem init_fresh_no_terminator:
  "init P (Some (v\<lparr>m_count := 0\<rparr>)) st =
     Inr (st\<lparr>m_data := v\<lparr>m_count := 0\<rparr>, m_map := [], m_free := [], m_hash := 0, m_order := 0,
             m_lastf := - 1, m_flush := 0\<rparr>)"
proof -
  let ?v = "v\<lparr>m_count := 0\<rparr>"
  let ?st0 = "st\<lparr>m_data := ?v, m_flush := - 1\<rparr>"
  let ?st1 = "?st0\<lparr>m_map := [], m_free := [], m_hash := 0, m_order := 0, m_lastf := - 1,
                   m_flush := 0\<rparr>"
  have blocks: "m_count (m_data ?st0) = 0" and first: "m_flush ?st0 = - 1"
    by simp_all
  have scan: "reload_scan P ?st0 =
      (replicate 64 0,
       ?st0\<lparr>m_map := [], m_free := [], m_hash := 0, m_order := 0, m_lastf := - 1\<rparr>)"
    using blocks by (rule reload_scan_empty)
  have reloaded: "reload P ?st0 = ?st1"
    by (subst reload.simps) (simp add: scan hash_check_def be_bytes_zero)
  have none: "m_lastf ?st1 = - 1" and caught_up: "m_order ?st1 \<le> m_flush ?st1"
    by simp_all
  have "finalize P ?st1 = Inr ?st1"
    using caught_up by (simp add: finalize_def)
  then show ?thesis
    using none by (simp add: init_def reloaded)
qed

subsection \<open>A failed write on a fresh container\<close>

text \<open>
  An instance of the map on which the model is run below: keys and values are
  \<open>std::string\<close>s (byte strings, \<open>sizeof\<close> 32), over any cipher and keyed hash.
  \<open>toy_hmac\<close> stands in for the keyed hash there; it is not zero on 16 bytes.
\<close>

definition string_value :: "bytes \<Rightarrow> sval" where
  "string_value s = SSeq 1 32 (map (\<lambda>b. [b]) s)"

definition get_string :: "context_data \<Rightarrow> bytes \<times> context_data" where
  "get_string c = (case get_seq 1 None [] c of (elems, c1) \<Rightarrow> (concat elems, c1))"

definition string_params :: "aead \<Rightarrow> (bytes \<Rightarrow> 512 word) \<Rightarrow> (bytes, bytes) params" where
  "string_params cph h =
     \<lparr>cipher = cph, hmac = h,
      put_key = (\<lambda>k. put (string_value k)), put_val = (\<lambda>v. put (string_value v)),
      get_key = get_string, get_val = get_string, default_val = []\<rparr>"

definition toy_hmac :: "bytes \<Rightarrow> 512 word" where
  "toy_hmac bs = be_word bs + 1"

definition new_umap :: "view \<Rightarrow> ('k, 'v) umap" where
  "new_umap v =
     \<lparr>m_map = [], m_free = [], m_data = v, m_error = 0, m_lastf = 0, m_order = 0, m_flush = 0,
      m_hash = 0\<rparr>"

lemma get_free_default: "count \<noteq> 0 \<Longrightarrow> get_free count [] = Inr (0, [(count, - count)])"
  by (simp add: get_free_def map_emplace_def map_lower_def map_upper_def)

lemma add_free_default_merge:
  assumes "count \<noteq> 0"
  shows "add_free 0 count [(count, - count)] = [(0, 0)]"
proof -
  have pos: "0 < count" using assms by (simp add: word_greater_zero_iff)
  have ne: "count \<noteq> 0" "0 \<noteq> count" using assms by auto
  show ?thesis
    using pos ne
    by (simp add: add_free_def map_emplace_def map_lower_def map_upper_def map_at_def
        map_assign_def merge_prev_def merge_next_def map_prev_def map_next_def map_erase_def
        Let_def)
qed

lemma get_free_exhausted: "n \<noteq> 0 \<Longrightarrow> get_free n [(0, 0)] = Inl bad_alloc"
  by (simp add: get_free_def word_le_nat_alt unat_gt_0 [symmetric] not_le)

lemma write_blocks_Nil_True: "fst (write_blocks cph buf count ord nb [] sbuf v)"
  by simp

lemma sstl_save_encode: "sstl_save (put_all xs) = encode_all xs"
proof (cases "encode_all xs = []")
  case True
  then show ?thesis by (simp add: sstl_save_def sstl_append_def probe_size Let_def)
next
  case False
  then show ?thesis
    using write_result [of "length (encode_all xs)" xs "[]"]
    by (simp add: sstl_save_def sstl_append_def probe_size Let_def)
qed

lemma string_item_bytes:
  "item_bytes (string_params cph h) k v = encode (string_value k) @ encode (string_value v)"
proof -
  have "put_all [string_value k, string_value v] = (\<lambda>ctx. put (string_value v) (put (string_value k) ctx))"
    by (rule ext) simp
  then have "item_bytes (string_params cph h) k v = sstl_save (put_all [string_value k, string_value v])"
    by (simp add: item_bytes_def string_params_def)
  then show ?thesis by (simp add: sstl_save_encode)
qed

text \<open>
  Claim C9. The first write of an entry on a fresh container (empty free-space map) takes
  its run from \<open>get_free\<close> on the default state, which leaves the interval from \<open>count\<close>
  of length \<open>2^32 - count\<close>. When a block write of the run fails, the entry is aborted
  as described (contribution taken out of the hash again, control reset, bit 64 set,
  order sequence restored; flush order, last terminator and the map are untouched), but
  \<open>add_free\<close> of the run merges it with that interval into the single entry \<open>(0, 0)\<close>:
  the run is not free afterwards, and no later \<open>get_free\<close> succeeds.
\<close>

theorem write_failure_exhausts_free_space:
  assumes fresh: "m_free st = []"
    and fail: "\<not> fst (write_blocks (cipher P) (item_bytes P k v) (block_count (item_bytes P k v))
                  (m_order st + 1) 0 [0..<unat (block_count (item_bytes P k v))] zero_block (m_data st))"
  shows "\<exists>st'. umap_write P st (k, null_control, v) = Inr (st', (k, null_control, v)) \<and>
           m_free st' = [(0, 0)] \<and> get_free 1 (m_free st') = Inl bad_alloc \<and>
           m_error st' = m_error st OR 64 \<and> m_hash st' = m_hash st \<and>
           m_order st' = m_order st \<and> m_flush st' = m_flush st \<and> m_lastf st' = m_lastf st \<and>
           m_map st' = m_map st"
proof -
  define buf where "buf = item_bytes P k v"
  define count where "count = block_count buf"
  have cnt: "count \<noteq> 0"
  proof
    assume "count = 0"
    then show False using fail by (simp add: buf_def [symmetric] count_def [symmetric])
  qed
  define ctrl2 where "ctrl2 = null_control\<lparr>order := m_order st + 1\<rparr>"
  define st2 where "st2 = st\<lparr>m_order := m_order st + 1\<rparr>"
  define ctrl3 where "ctrl3 = ctrl2\<lparr>new_block := 0, new_count := count\<rparr>"
  define st3 where "st3 = st2\<lparr>m_free := [(count, 0 - count)]\<rparr>"
  have d: "dirty P st (k, null_control, v) = (st, (k, null_control, v))"
    by (simp add: dirty_def null_control_def)
  have r: "reserve_run count st2 ctrl2 = Inr (st3, ctrl3)"
    using cnt by (auto simp: reserve_run_def ctrl2_def st2_def ctrl3_def st3_def null_control_def
        fresh add_free_def get_free_default)
  define st4 where "st4 = st3\<lparr>m_hash := xor_order P (order ctrl3) (ucast (new_block ctrl3)) (m_hash st3)\<rparr>"
  obtain v1 where w: "write_blocks (cipher P) buf count (order ctrl3) (new_block ctrl3)
                       [0..<unat count] zero_block (m_data st3) = (False, v1)"
    using fail
    by (cases "write_blocks (cipher P) buf count (order ctrl3) (new_block ctrl3)
                       [0..<unat count] zero_block (m_data st3)")
      (simp add: buf_def count_def ctrl3_def ctrl2_def st3_def st2_def)
  define st' where "st' = st4\<lparr>m_data := v1,
                             m_free := add_free (new_block ctrl3) (new_count ctrl3) (m_free st4),
                             m_hash := xor_order P (order ctrl3) (ucast (new_block ctrl3)) (m_hash st4),
                             m_error := m_error st4 OR 64,
                             m_order := m_order st4 - 1\<rparr>"
  have u: "umap_write P st (k, null_control, v) =
             Inr (st', (k, ctrl3\<lparr>new_block := 0, new_count := 0, order := 0\<rparr>, v))"
    unfolding umap_write_def
    by (simp add: Let_def d buf_def [symmetric] count_def [symmetric] st2_def [symmetric]
        ctrl2_def [symmetric] r w st'_def st4_def)
  have c: "ctrl3\<lparr>new_block := 0, new_count := 0, order := 0\<rparr> = null_control"
    by (simp add: ctrl3_def ctrl2_def null_control_def)
  have f: "m_free st' = [(0, 0)]"
    by (simp add: st'_def st4_def st3_def ctrl3_def add_free_default_merge [OF cnt])
  have h: "m_hash st' = m_hash st"
    by (simp add: st'_def st4_def st3_def st2_def xor_order_def xor.assoc)
  have rest: "m_error st' = m_error st OR 64 \<and> m_order st' = m_order st \<and>
      m_flush st' = m_flush st \<and> m_lastf st' = m_lastf st \<and> m_map st' = m_map st"
    by (simp add: st'_def st4_def st3_def st2_def)
  show ?thesis
    using u c f h rest by (simp add: get_free_exhausted)
qed

definition failing_view :: view where
  "failing_view = empty_view\<lparr>io_ok := (\<lambda>_. False)\<rparr>"

theorem write_failure_exhausts_free_space_witness:
  "m_free (new_umap failing_view :: (bytes, bytes) umap) = [] \<and>
   \<not> fst (write_blocks plain_aead [5, 1, 0x6B, 5, 1, 0x76] 1 1 0 [0] zero_block failing_view) \<and>
   (\<exists>st'. umap_write (string_params plain_aead toy_hmac) (new_umap failing_view) ([0x6B], null_control, [0x76]) =
            Inr (st', ([0x6B], null_control, [0x76])) \<and>
          m_free st' = [(0, 0)] \<and> get_free 1 (m_free st') = Inl bad_alloc \<and> m_error st' = 64 \<and>
          m_hash st' = 0 \<and> m_order st' = 0 \<and> m_flush st' = 0 \<and> m_lastf st' = 0 \<and> m_map st' = [])"
proof -
  let ?P = "string_params plain_aead toy_hmac"
  let ?st = "new_umap failing_view :: (bytes, bytes) umap"
  have b: "item_bytes ?P [0x6B] [0x76] = [5, 1, 0x6B, 5, 1, 0x76]"
    by (simp add: string_item_bytes string_value_def type_sized_def size_bytes_def b_u8_sized_def)
  have c: "block_count [5, 1, 0x6B, 5, 1, 0x76 :: u8] = 1"
    by (simp add: block_count_def data_len_def)
  have fresh: "m_free ?st = []" by (simp add: new_umap_def)
  have w: "\<not> fst (write_blocks plain_aead [5, 1, 0x6B, 5, 1, 0x76] 1 1 0 [0] zero_block failing_view)"
    by (simp add: write_block_def failing_view_def empty_view_def plain_aead_def lseek_ok_def Let_def)
  have fail: "\<not> fst (write_blocks (cipher ?P) (item_bytes ?P [0x6B] [0x76])
                  (block_count (item_bytes ?P [0x6B] [0x76]))
                  (m_order ?st + 1) 0 [0..<unat (block_count (item_bytes ?P [0x6B] [0x76]))] zero_block (m_data ?st))"
    unfolding b c using w by (simp add: string_params_def new_umap_def)
  show ?thesis
    using write_failure_exhausts_free_space [OF fresh fail] fresh w
    by (simp add: new_umap_def)
qed

subsection \<open>Records of more than one block\<close>

lemma read_block_again:
  assumes "read_block cph v b c = (Some p, v1)"
  shows "fst (read_block cph v1 b c) = None \<or> fst (read_block cph v1 b c) = Some p"
  using assms
  by (auto simp: read_block_def Let_def split: if_splits)

lemma cont_loop_head:
  assumes rd: "fst (read_block (cipher P) (m_data st) (ucast i) 0) = None \<or>
               fst (read_block (cipher P) (m_data st) (ucast i) 0) = Some payload"
    and sz: "blk_size (layout_of payload) \<noteq> - 1"
    and r: "cont_loop P count ord blk i j n buf sbuf st = (i1, n1, buf1, sbuf1, st1)"
  shows "i1 = i \<and> n1 = n \<and> m_map st1 = m_map st \<and> m_hash st1 = m_hash st \<and>
         (m_error st1 = m_error st \<or> m_error st1 = m_error st OR 8)"
proof (cases "data_len < n \<and> j < count")
  case False
  have "(i, n, buf, sbuf, st) = (i1, n1, buf1, sbuf1, st1)"
    using r unfolding cont_loop.simps [of P count ord blk i j n buf sbuf st] if_not_P [OF False] .
  then show ?thesis by simp
next
  case True
  obtain r0 v1 where rb: "read_block (cipher P) (m_data st) (ucast i) 0 = (r0, v1)"
    by (cases "read_block (cipher P) (m_data st) (ucast i) 0") auto
  show ?thesis
  proof (cases r0)
    case None
    then show ?thesis
      using r True rb
      by (auto simp: cont_loop.simps [of P count ord blk i j n buf sbuf st] free_blocks_def
          set_error_def)
  next
    case (Some p)
    then have "p = payload" using rd rb by simp
    then show ?thesis
      using r True rb Some sz
      by (auto simp: cont_loop.simps [of P count ord blk i j n buf sbuf st] free_blocks_def
          set_error_def Let_def)
  qed
qed

text \<open>
  Claim C2. The body of the scanning loop of \<open>reload\<close> at the head block of a record of
  more than 4032 bytes (a block that decrypts, with a valid order not above the flush
  order). After the head's 4032 bytes the size still missing is not zero. The
  continuation loop is entered only if more than 4032 bytes are still missing, and then
  reads block \<open>i\<close>, the head again, which is not a continuation; so it never appends a
  byte. The record is dropped with error bit 16 (and bit 8, if the loop was entered):
  the index returned is that of the head, and map and hash are as before.
\<close>

theorem long_record_not_reloaded:
  assumes rd: "read_block (cipher P) (m_data st) (ucast i) 0 = (Some payload, v1)"
    and ord: "\<not> int64_max \<le> blk_order (layout_of payload) - 1"
    and fl: "\<not> m_flush st < blk_order (layout_of payload)"
    and lo: "4032 < unat (blk_size (layout_of payload))"
    and hi: "blk_size (layout_of payload) < 2 ^ 31"
  shows "\<exists>st'. scan_block P count i lh st = (i, lh, st') \<and> m_map st' = m_map st \<and>
           m_hash st' = m_hash st \<and>
           (m_error st' = m_error st OR 16 \<or> m_error st' = (m_error st OR 8) OR 16)"
proof -
  define sbuf where "sbuf = layout_of payload"
  define st0 where "st0 = st\<lparr>m_data := v1\<rparr>"
  define st1 where "st1 = (if m_flush st0 \<noteq> - 1 \<and> m_order st0 < blk_order sbuf
                          then st0\<lparr>m_order := blk_order sbuf\<rparr> else st0)"
  define sz where "sz = unat (blk_size sbuf)"
  have hi': "\<not> 2 ^ 31 \<le> blk_size sbuf" using hi by (simp add: sbuf_def not_le)
  have nz: "blk_size sbuf \<noteq> 0" using lo by (auto simp: sbuf_def)
  have fl1: "\<not> m_flush st1 < blk_order sbuf" using fl by (simp add: st1_def st0_def sbuf_def)
  have sb: "scan_block P count i lh st = scan_data P count i lh (blk_order sbuf) sbuf st1"
    using ord hi' nz fl
    unfolding scan_block_def rd st1_def st0_def sbuf_def
    by (simp add: Let_def)
  have d1: "m_data st1 = v1" by (simp add: st1_def st0_def)
  have again: "fst (read_block (cipher P) (m_data st1) (ucast i) 0) = None \<or>
               fst (read_block (cipher P) (m_data st1) (ucast i) 0) = Some payload"
    unfolding d1 using read_block_again [OF rd] .
  have ne: "blk_size (layout_of payload) \<noteq> - 1"
    using hi by auto
  obtain x n1 buf1 sbuf1 st2 where
    cl: "cont_loop P count (blk_order sbuf) i i (i + 1) (sz - min sz data_len)
           (take (min sz data_len) (blk_data sbuf)) sbuf st1 = (x, n1, buf1, sbuf1, st2)"
    by (cases "cont_loop P count (blk_order sbuf) i i (i + 1) (sz - min sz data_len)
           (take (min sz data_len) (blk_data sbuf)) sbuf st1") blast
  from cont_loop_head [OF again ne cl]
  have x: "x = i" and n1: "n1 = sz - min sz data_len" and keep: "m_map st2 = m_map st1"
    "m_hash st2 = m_hash st1" and err: "m_error st2 = m_error st1 \<or> m_error st2 = m_error st1 OR 8"
    by simp_all
  have left: "n1 \<noteq> 0" using lo by (simp add: n1 sz_def sbuf_def data_len_def)
  have sd: "scan_data P count i lh (blk_order sbuf) sbuf st1 = (i, lh, set_error 16 st2)"
    using cl left x by (simp add: scan_data_def Let_def sz_def [symmetric])
  have m1: "m_map st1 = m_map st" "m_hash st1 = m_hash st" "m_error st1 = m_error st"
    by (simp_all add: st1_def st0_def)
  show ?thesis
    using sb sd keep err m1 by (auto simp: set_error_def)
qed

subsection \<open>Running the map on a view\<close>

text \<open>
  Facts for evaluating the model on concrete containers: blocks written and read under
  \<open>plain_aead\<close>, the fields of the blocks that \<open>write\<close> and \<open>finalize\<close> compose, and the
  body of the scanning loop at a terminator and at a continuation block.
\<close>

lemma write_plain:
  assumes "m_enc V" and "b \<le> m_count V" and "rand_bytes V (ticks V) = Some n"
    and "lseek_ok (b * 4096)" and "io_ok V (ticks V)"
  shows "write_block plain_aead V b buf c =
           (True, V\<lparr>ticks := Suc (ticks V),
                    m_file := (m_file V)(b * 4096 := \<lparr>nonce = n, ciphertext = buf, tag = aad_bytes c b\<rparr>),
                    m_count := (if b = m_count V then b + 1 else m_count V)\<rparr>)"
  using assms by (auto simp: write_block_def plain_aead_def Let_def not_less)

lemma read_plain:
  assumes "m_dec V" and "b < m_count V" and "lseek_ok (b * 4096)" and "io_ok V (ticks V)"
  shows "read_block plain_aead V b c =
           (if tag (m_file V (b * 4096)) = aad_bytes c b
            then Some (ciphertext (m_file V (b * 4096))) else None,
            V\<lparr>ticks := Suc (ticks V)\<rparr>)"
  using assms by (auto simp: read_block_def plain_aead_def Let_def not_le)

lemma length_be64 [simp]: "length (be64 w) = 8"
  by (simp add: be64_def del: be_bytes.simps)

lemma layout_inverse: "layout_of (layout_bytes b) = b"
  by (simp add: layout_of_def layout_bytes_def be64_inverse)

lemma fill_block_fields:
  "blk_order (fill_block buf count ord i sbuf) = ord"
  "blk_size (fill_block buf count ord i sbuf) = (if i = 0 then of_nat (length buf) else - 1)"
  by (simp_all add: fill_block_def Let_def)

lemma term_block_fields:
  "blk_order (term_block ord h) = ord" "blk_size (term_block ord h) = 0"
  "take 64 (blk_data (term_block ord h)) = be_bytes 64 h"
  by (simp_all add: term_block_def zero_block_def)

lemma be_bytes_64_inj: "be_bytes 64 (a :: 512 word) = be_bytes 64 b \<longleftrightarrow> a = b"
proof
  assume "be_bytes 64 a = be_bytes 64 b"
  then have "(be_word (be_bytes 64 a) :: 512 word) = be_word (be_bytes 64 b)" by simp
  then show "a = b" by (simp add: be_word_be_bytes take_bit_word_eq_self del: be_bytes.simps)
qed simp

lemma hash_check_iff: "hash_check st (be_bytes 64 h) \<longleftrightarrow> m_hash st = h"
  by (simp add: hash_check_def be_bytes_64_inj del: be_bytes.simps)

lemma scan_block_continuation:
  assumes "read_block (cipher P) (m_data st) (ucast i) 0 = (Some payload, v1)"
    and "\<not> int64_max \<le> blk_order (layout_of payload) - 1"
    and "blk_size (layout_of payload) = - 1"
  shows "scan_block P count i lh st = (i, lh, free_blocks i 1 (st\<lparr>m_data := v1\<rparr>))"
  using assms by (simp add: scan_block_def Let_def)

lemma scan_block_terminator:
  assumes "read_block (cipher P) (m_data st) (ucast i) 0 = (Some payload, v1)"
    and "\<not> int64_max \<le> blk_order (layout_of payload) - 1"
    and "blk_size (layout_of payload) = 0"
    and "\<not> m_flush st < blk_order (layout_of payload)"
  shows "scan_block P count i lh st =
           scan_term i lh (blk_order (layout_of payload)) (layout_of payload)
             (if m_flush st \<noteq> - 1 \<and> m_order st < blk_order (layout_of payload)
              then st\<lparr>m_data := v1, m_order := blk_order (layout_of payload)\<rparr>
              else st\<lparr>m_data := v1\<rparr>)"
  using assms by (simp add: scan_block_def Let_def)

lemma cont_loop_skip:
  assumes "n \<le> data_len"
  shows "cont_loop P count ord blk i j n buf sbuf st = (i, n, buf, sbuf, st)"
  using assms by (simp add: cont_loop.simps [of P count ord blk i j n buf sbuf st])

lemma scan_block_two_blocks:
  assumes rd: "read_block (cipher P) (m_data st) (ucast i) 0 = (Some payload, v1)"
    and ord: "\<not> int64_max \<le> blk_order (layout_of payload) - 1"
    and fl: "\<not> m_flush st < blk_order (layout_of payload)"
    and lo: "4032 < unat (blk_size (layout_of payload))"
    and hi: "unat (blk_size (layout_of payload)) \<le> 8064"
  shows "scan_block P count i lh st =
           (i, lh, set_error 16
              (if m_flush st \<noteq> - 1 \<and> m_order st < blk_order (layout_of payload)
               then st\<lparr>m_data := v1, m_order := blk_order (layout_of payload)\<rparr>
               else st\<lparr>m_data := v1\<rparr>))"
proof -
  have lt: "blk_size (layout_of payload) < 2 ^ 31" using hi by (simp add: word_less_nat_alt)
  then have hi': "\<not> 2 ^ 31 \<le> blk_size (layout_of payload)" by (simp add: not_le)
  have nz: "blk_size (layout_of payload) \<noteq> 0" using lo by auto
  have tail: "unat (blk_size (layout_of payload)) - data_len \<le> data_len"
    using lo hi by (simp add: data_len_def)
  have left: "0 < unat (blk_size (layout_of payload)) - data_len"
    and big: "\<not> unat (blk_size (layout_of payload)) \<le> data_len"
    using lo by (simp_all add: data_len_def)
  show ?thesis
    using ord hi' nz fl left big
    by (simp add: scan_block_def rd Let_def scan_data_def cont_loop_skip [OF tail])
qed

lemma upt_two: "[0..<2] = [0, Suc 0]"
  by (simp add: upt_rec)

lemma upt_one: "[0..<Suc 0] = [0]"
  by simp

subsection \<open>A record of two blocks, written, flushed and reloaded\<close>

text \<open>
  The map of strings under \<open>plain_aead\<close> and \<open>toy_hmac\<close>, and an entry with key \<open>"k"\<close> and
  a value of 5000 bytes, whose encoding \<open>long_record\<close> has 5008 bytes and takes two blocks.
  \<open>demo_view n\<close> is the container after this entry has been added to a fresh container and
  flushed: head block 0, continuation block 1, terminator block 2 (order 2, carrying
  the hash of order 1 at block 0); \<open>n\<close> counts the transfers made so far.
\<close>

definition demo_params :: "(bytes, bytes) params" where
  "demo_params = string_params plain_aead toy_hmac"

definition long_value :: bytes where
  "long_value = replicate 5000 0x41"

definition long_record :: bytes where
  "long_record = item_bytes demo_params [0x6B] long_value"

definition demo_head :: block_layout where
  "demo_head = fill_block long_record 2 1 0 zero_block"

definition demo_cont :: block_layout where
  "demo_cont = fill_block long_record 2 1 1 demo_head"

definition demo_hash :: "512 word" where
  "demo_hash = toy_hmac (be64 1 @ be64 0)"

definition sealed :: "u64 \<Rightarrow> block_layout \<Rightarrow> sealed_block" where
  "sealed i b = \<lparr>nonce = replicate 16 0, ciphertext = layout_bytes b, tag = aad_bytes 0 i\<rparr>"

definition demo_view :: "nat \<Rightarrow> view" where
  "demo_view n =
     empty_view\<lparr>m_count := 3, ticks := n,
                m_file := (m_file empty_view)
                  (0 := sealed 0 demo_head, 4096 := sealed 1 demo_cont,
                   8192 := sealed 2 (term_block 2 demo_hash))\<rparr>"

lemmas free_map_defs = add_free_def map_emplace_def map_lower_def map_upper_def map_at_def
  map_assign_def merge_prev_def merge_next_def map_prev_def map_next_def map_erase_def
  get_free_def Let_def

lemma minus_one_u32: "(- 1 :: u32) = 0xFFFFFFFF"
  by simp

lemma demo_free_1: "add_free 3 (- 3) [] = [(3, 0xFFFFFFFC)]"
  by (simp add: free_map_defs minus_one_u32)

lemma demo_free_2: "add_free 1 1 [(3, 0xFFFFFFFC)] = [(1, 1), (3, 0xFFFFFFFC)]"
  by (simp add: free_map_defs minus_one_u32)

lemma demo_free_3: "add_free (- 1) 1 [(1, 1), (3, 0xFFFFFFFC)] = [(1, 1), (3, 0xFFFFFFFC)]"
  by (simp add: free_map_defs minus_one_u32)

lemma demo_free_4: "add_free 2 1 [(1, 1), (3, 0xFFFFFFFC)] = [(1, 0xFFFFFFFE)]"
  by (simp add: free_map_defs minus_one_u32)

lemma demo_free_5: "get_free 1 [(1, 0xFFFFFFFE)] = Inr (1, [(2, 0xFFFFFFFD)])"
  by (simp add: free_map_defs minus_one_u32)

lemma demo_free_6: "add_free (- 1) 1 [(2, 0xFFFFFFFD)] = [(2, 0xFFFFFFFD)]"
  by (simp add: free_map_defs minus_one_u32)

lemma demo_free_7: "get_free 2 [] = Inr (0, [(2, 0xFFFFFFFE)])"
  by (simp add: free_map_defs minus_one_u32)

lemma demo_free_8: "get_free 1 [(2, 0xFFFFFFFE)] = Inr (2, [(3, 0xFFFFFFFD)])"
  by (simp add: free_map_defs minus_one_u32)

lemma demo_free_9: "add_free (- 1) 1 [(3, 0xFFFFFFFD)] = [(3, 0xFFFFFFFD), (0xFFFFFFFF, 0)]"
  by (simp add: free_map_defs minus_one_u32)


lemma concat_singletons: "concat (map (\<lambda>b. [b]) xs) = xs"
  by (induction xs) simp_all

lemma be_bytes_4:
  "be_bytes 4 w = [ucast (drop_bit 8 (drop_bit 8 (drop_bit 8 w))), ucast (drop_bit 8 (drop_bit 8 w)),
                   ucast (drop_bit 8 w), ucast w]"
proof -
  have "(4 :: nat) = Suc (Suc (Suc (Suc 0)))" by simp
  then show ?thesis by (simp only: be_bytes.simps append.simps)
qed

lemma be_bytes_5000: "be_bytes 4 (5000 :: u32) = [0, 0, 0x13, 0x88]"
  by (simp add: be_bytes_4 del: be_bytes.simps)

lemma long_record_bytes: "long_record = [5, 1, 0x6B, 7, 0, 0, 0x13, 0x88] @ replicate 5000 0x41"
proof -
  show ?thesis
    by (simp add: concat_singletons be_bytes_5000 long_record_def demo_params_def string_item_bytes string_value_def
        type_sized_def size_bytes_def b_u8_sized_def b_u32_sized_def uint32_max_def
        long_value_def)
qed

lemma long_record_length: "length long_record = 5008"
  by (simp add: long_record_bytes)

lemma long_record_count: "block_count long_record = 2"
  by (simp add: block_count_def long_record_length data_len_def)

lemma be64_one: "be64 1 = [0, 0, 0, 0, 0, 0, 0, 1]" and be64_zero: "be64 0 = [0, 0, 0, 0, 0, 0, 0, 0]"
  by (simp_all add: be64_def eval_nat_numeral)

lemma demo_hash_nonzero: "demo_hash \<noteq> 0"
  by (simp add: demo_hash_def toy_hmac_def be64_one be64_zero be_word_def)

lemma demo_blocks:
  "blk_order demo_head = 1" "blk_size demo_head = 5008"
  "blk_order demo_cont = 1" "blk_size demo_cont = - 1"
  by (simp_all add: demo_head_def demo_cont_def fill_block_fields long_record_length)

lemma demo_read_0:
  "read_block plain_aead (demo_view n) 0 0 = (Some (layout_bytes demo_head), demo_view (Suc n))"
  by (subst read_plain) (simp_all add: demo_view_def empty_view_def lseek_ok_def sealed_def)

lemma demo_read_1:
  "read_block plain_aead (demo_view n) 1 0 = (Some (layout_bytes demo_cont), demo_view (Suc n))"
  by (subst read_plain) (simp_all add: demo_view_def empty_view_def lseek_ok_def sealed_def)

lemma demo_read_2:
  "read_block plain_aead (demo_view n) 2 0 =
     (Some (layout_bytes (term_block 2 demo_hash)), demo_view (Suc n))"
  by (subst read_plain) (simp_all add: demo_view_def empty_view_def lseek_ok_def sealed_def)

lemma int64_max_small: "\<not> int64_max \<le> (1 :: u64) - 1" "\<not> int64_max \<le> (2 :: u64) - 1"
  by (simp_all add: int64_max_def word_le_nat_alt)

lemma demo_scan_0:
  assumes "m_data st = demo_view n" and "\<not> m_flush st < 1"
  shows "scan_block demo_params 3 0 lh st =
           (0, lh, set_error 16
              (if m_flush st \<noteq> - 1 \<and> m_order st < 1
               then st\<lparr>m_data := demo_view (Suc n), m_order := 1\<rparr>
               else st\<lparr>m_data := demo_view (Suc n)\<rparr>))"
proof -
  have rd: "read_block (cipher demo_params) (m_data st) (ucast (0 :: u32)) 0 =
              (Some (layout_bytes demo_head), demo_view (Suc n))"
    by (simp add: assms demo_read_0 demo_params_def string_params_def)
  have ord: "\<not> int64_max \<le> blk_order (layout_of (layout_bytes demo_head)) - 1"
    unfolding layout_inverse demo_blocks by (rule int64_max_small)
  have fl: "\<not> m_flush st < blk_order (layout_of (layout_bytes demo_head))"
    unfolding layout_inverse demo_blocks by (rule assms)
  have lo: "4032 < unat (blk_size (layout_of (layout_bytes demo_head)))"
    and hi: "unat (blk_size (layout_of (layout_bytes demo_head))) \<le> 8064"
    unfolding layout_inverse demo_blocks by simp_all
  show ?thesis
    using scan_block_two_blocks [OF rd ord fl lo hi, of 3 lh]
    unfolding layout_inverse demo_blocks .
qed

lemma demo_scan_1:
  assumes "m_data st = demo_view n"
  shows "scan_block demo_params 3 1 lh st =
           (1, lh, free_blocks 1 1 (st\<lparr>m_data := demo_view (Suc n)\<rparr>))"
proof -
  have rd: "read_block (cipher demo_params) (m_data st) (ucast (1 :: u32)) 0 =
              (Some (layout_bytes demo_cont), demo_view (Suc n))"
    by (simp add: assms demo_read_1 demo_params_def string_params_def)
  have ord: "\<not> int64_max \<le> blk_order (layout_of (layout_bytes demo_cont)) - 1"
    unfolding layout_inverse demo_blocks by (rule int64_max_small)
  have sz: "blk_size (layout_of (layout_bytes demo_cont)) = - 1"
    unfolding layout_inverse demo_blocks by (rule refl)
  show ?thesis
    using scan_block_continuation [OF rd ord sz, of 3 lh] .
qed

lemma demo_scan_2:
  assumes "m_data st = demo_view n" and "\<not> m_flush st < 2"
  shows "scan_block demo_params 3 2 lh st =
           scan_term 2 lh 2 (term_block 2 demo_hash)
             (if m_flush st \<noteq> - 1 \<and> m_order st < 2
              then st\<lparr>m_data := demo_view (Suc n), m_order := 2\<rparr>
              else st\<lparr>m_data := demo_view (Suc n)\<rparr>)"
proof -
  have rd: "read_block (cipher demo_params) (m_data st) (ucast (2 :: u32)) 0 =
              (Some (layout_bytes (term_block 2 demo_hash)), demo_view (Suc n))"
    by (simp add: assms demo_read_2 demo_params_def string_params_def)
  have ord: "\<not> int64_max \<le> blk_order (layout_of (layout_bytes (term_block 2 demo_hash))) - 1"
    unfolding layout_inverse term_block_fields by (rule int64_max_small)
  have sz: "blk_size (layout_of (layout_bytes (term_block 2 demo_hash))) = 0"
    unfolding layout_inverse term_block_fields by (rule refl)
  have fl: "\<not> m_flush st < blk_order (layout_of (layout_bytes (term_block 2 demo_hash)))"
    unfolding layout_inverse term_block_fields by (rule assms)
  show ?thesis
    using scan_block_terminator [OF rd ord sz fl, of 3 lh]
    unfolding layout_inverse term_block_fields .
qed

lemma demo_count: "(ucast ((m_count (demo_view n) * 4064) div 4064) :: u32) = 3"
  by (simp add: demo_view_def)

text \<open>
  One scan of the three blocks, started by \<open>reload\<close> in a state \<open>st\<close>: the record at
  block 0 is dropped with error bit 16, block 1 is freed as a stray continuation, and
  the terminator at block 2 is taken in the first attempt (flush order \<open>-1\<close>) and in the
  second (flush order 2), and freed in the third (flush order \<open>-2\<close>).
\<close>

definition scanned ::
  "(bytes, bytes) umap \<Rightarrow> nat \<Rightarrow> free_map \<Rightarrow> u32 \<Rightarrow> (bytes, bytes) umap" where
  "scanned st n fm lastf =
     st\<lparr>m_map := [], m_free := fm, m_data := demo_view (Suc (Suc (Suc n))), m_error := m_error st OR 16,
        m_lastf := lastf, m_order := 2, m_hash := 0\<rparr>"

lemma demo_pass_1:
  assumes "m_data st = demo_view n" and "m_flush st = - 1"
  shows "reload_scan demo_params st =
           (be_bytes 64 demo_hash, scanned st n [(1, 1), (3, 0xFFFFFFFC)] 2)"
proof -
  define st0 where "st0 = free_blocks 3 (0 - 3)
      (st\<lparr>m_map := [], m_free := [], m_hash := 0, m_order := 0, m_lastf := - 1\<rparr>)"
  have d0: "m_data st0 = demo_view n" and f0: "m_flush st0 = - 1"
    by (simp_all add: st0_def free_blocks_def assms)
  define st1 where "st1 = set_error 16 (st0\<lparr>m_data := demo_view (Suc n)\<rparr>)"
  have s0: "scan_block demo_params 3 0 (replicate 64 0) st0 = (0, replicate 64 0, st1)"
    using demo_scan_0 [OF d0, of "replicate 64 0"] f0 by (simp add: st1_def)
  have d1: "m_data st1 = demo_view (Suc n)" and f1: "m_flush st1 = - 1"
    by (simp_all add: st1_def set_error_def f0)
  define st2 where "st2 = free_blocks 1 1 (st1\<lparr>m_data := demo_view (Suc (Suc n))\<rparr>)"
  have s1: "scan_block demo_params 3 1 (replicate 64 0) st1 = (1, replicate 64 0, st2)"
    using demo_scan_1 [OF d1] by (simp add: st2_def)
  have d2: "m_data st2 = demo_view (Suc (Suc n))" and f2: "m_flush st2 = - 1"
    and o2: "m_order st2 = 0"
    by (simp_all add: st2_def free_blocks_def st1_def set_error_def st0_def f1 assms)
  define st3 where "st3 = (free_blocks (m_lastf st2) 1 (st2\<lparr>m_data := demo_view (Suc (Suc (Suc n)))\<rparr>))
                            \<lparr>m_order := 2, m_lastf := 2\<rparr>"
  have s2: "scan_block demo_params 3 2 (replicate 64 0) st2 = (2, be_bytes 64 demo_hash, st3)"
    using demo_scan_2 [OF d2, of "replicate 64 0"] f2 o2
    by (simp add: scan_term_def term_block_fields st3_def free_blocks_def)
  have sc: "scan demo_params 3 0 (replicate 64 0) st0 = (be_bytes 64 demo_hash, st3)"
    by (simp add: scan.simps [of _ 3 0] s0 scan.simps [of _ 3 1] s1 scan.simps [of _ 3 2] s2
        scan.simps [of _ 3 3])
  have "st3 = scanned st n [(1, 1), (3, 0xFFFFFFFC)] 2"
    by (simp add: st3_def st2_def st1_def st0_def free_blocks_def set_error_def scanned_def
        demo_free_1 demo_free_2 demo_free_3)
  then show ?thesis
    using sc by (simp add: reload_scan_def assms demo_count st0_def)
qed


lemma demo_pass_2:
  assumes "m_data st = demo_view n" and "m_flush st = 2"
  shows "reload_scan demo_params st =
           (be_bytes 64 demo_hash, scanned st n [(1, 1), (3, 0xFFFFFFFC)] 2)"
proof -
  define st0 where "st0 = free_blocks 3 (0 - 3)
      (st\<lparr>m_map := [], m_free := [], m_hash := 0, m_order := 0, m_lastf := - 1\<rparr>)"
  have d0: "m_data st0 = demo_view n" and f0: "m_flush st0 = 2" and o0: "m_order st0 = 0"
    by (simp_all add: st0_def free_blocks_def assms)
  define st1 where "st1 = set_error 16 (st0\<lparr>m_data := demo_view (Suc n), m_order := 1\<rparr>)"
  have s0: "scan_block demo_params 3 0 (replicate 64 0) st0 = (0, replicate 64 0, st1)"
    using demo_scan_0 [OF d0, of "replicate 64 0"] f0 o0 by (simp add: st1_def)
  have d1: "m_data st1 = demo_view (Suc n)" and f1: "m_flush st1 = 2"
    by (simp_all add: st1_def set_error_def f0)
  define st2 where "st2 = free_blocks 1 1 (st1\<lparr>m_data := demo_view (Suc (Suc n))\<rparr>)"
  have s1: "scan_block demo_params 3 1 (replicate 64 0) st1 = (1, replicate 64 0, st2)"
    using demo_scan_1 [OF d1] by (simp add: st2_def)
  have d2: "m_data st2 = demo_view (Suc (Suc n))" and f2: "m_flush st2 = 2"
    and o2: "m_order st2 = 1"
    by (simp_all add: st2_def free_blocks_def st1_def set_error_def f0)
  define st3 where "st3 = st2\<lparr>m_data := demo_view (Suc (Suc (Suc n))), m_order := 2, m_lastf := 2\<rparr>"
  have s2: "scan_block demo_params 3 2 (replicate 64 0) st2 = (2, be_bytes 64 demo_hash, st3)"
    using demo_scan_2 [OF d2, of "replicate 64 0"] f2 o2
    by (simp add: scan_term_def term_block_fields st3_def)
  have sc: "scan demo_params 3 0 (replicate 64 0) st0 = (be_bytes 64 demo_hash, st3)"
    by (simp add: scan.simps [of _ 3 0] s0 scan.simps [of _ 3 1] s1 scan.simps [of _ 3 2] s2
        scan.simps [of _ 3 3])
  have "st3 = scanned st n [(1, 1), (3, 0xFFFFFFFC)] 2"
    by (simp add: st3_def st2_def st1_def st0_def free_blocks_def set_error_def scanned_def
        demo_free_1 demo_free_2)
  then show ?thesis
    using sc by (simp add: reload_scan_def assms demo_count st0_def)
qed

lemma demo_pass_3:
  assumes "m_data st = demo_view n" and "m_flush st = - 2"
  shows "reload_scan demo_params st =
           (replicate 64 0, scanned st n [(1, 0xFFFFFFFE)] (- 1))"
proof -
  define st0 where "st0 = free_blocks 3 (0 - 3)
      (st\<lparr>m_map := [], m_free := [], m_hash := 0, m_order := 0, m_lastf := - 1\<rparr>)"
  have d0: "m_data st0 = demo_view n" and f0: "m_flush st0 = - 2" and o0: "m_order st0 = 0"
    by (simp_all add: st0_def free_blocks_def assms)
  have big: "\<not> (- 2 :: u64) < 1" "\<not> (- 2 :: u64) < 2" "(- 2 :: u64) \<noteq> - 1" "(- 2 :: u64) \<noteq> 2"
    by (simp_all add: word_less_nat_alt)
  define st1 where "st1 = set_error 16 (st0\<lparr>m_data := demo_view (Suc n), m_order := 1\<rparr>)"
  have s0: "scan_block demo_params 3 0 (replicate 64 0) st0 = (0, replicate 64 0, st1)"
    using demo_scan_0 [OF d0, of "replicate 64 0"] f0 o0 big by (simp add: st1_def)
  have d1: "m_data st1 = demo_view (Suc n)" and f1: "m_flush st1 = - 2"
    by (simp_all add: st1_def set_error_def f0)
  define st2 where "st2 = free_blocks 1 1 (st1\<lparr>m_data := demo_view (Suc (Suc n))\<rparr>)"
  have s1: "scan_block demo_params 3 1 (replicate 64 0) st1 = (1, replicate 64 0, st2)"
    using demo_scan_1 [OF d1] by (simp add: st2_def)
  have d2: "m_data st2 = demo_view (Suc (Suc n))" and f2: "m_flush st2 = - 2"
    and o2: "m_order st2 = 1"
    by (simp_all add: st2_def free_blocks_def st1_def set_error_def f0)
  define st3 where "st3 = free_blocks 2 1 (st2\<lparr>m_data := demo_view (Suc (Suc (Suc n))), m_order := 2\<rparr>)"
  have s2: "scan_block demo_params 3 2 (replicate 64 0) st2 = (2, replicate 64 0, st3)"
    using demo_scan_2 [OF d2, of "replicate 64 0"] f2 o2 big
    by (simp add: scan_term_def term_block_fields st3_def)
  have sc: "scan demo_params 3 0 (replicate 64 0) st0 = (replicate 64 0, st3)"
    by (simp add: scan.simps [of _ 3 0] s0 scan.simps [of _ 3 1] s1 scan.simps [of _ 3 2] s2
        scan.simps [of _ 3 3])
  have "st3 = scanned st n [(1, 0xFFFFFFFE)] (- 1)"
    by (simp add: st3_def st2_def st1_def st0_def free_blocks_def set_error_def scanned_def
        demo_free_1 demo_free_2 demo_free_4)
  then show ?thesis
    using sc by (simp add: reload_scan_def assms demo_count st0_def)
qed

text \<open>
  \<open>reload\<close> of that container: all three attempts fail the hash check, because the
  terminator holds the hash of the record that every scan drops. It ends in the third
  attempt with an empty map and the error bits 16 and 32.
\<close>

lemma demo_reload:
  assumes "m_data st = demo_view n" and "m_flush st = - 1"
  shows "reload demo_params st =
           st\<lparr>m_map := [], m_free := [(1, 0xFFFFFFFE)], m_data := demo_view (n + 9),
              m_error := m_error st OR 48, m_lastf := - 1, m_order := 2, m_hash := 0,
              m_flush := 0\<rparr>"
proof -
  define st1 where "st1 = (scanned st n [(1, 1), (3, 0xFFFFFFFC)] 2)\<lparr>m_flush := 2\<rparr>"
  have r1: "reload demo_params st = reload demo_params st1"
    using demo_hash_nonzero
    by (subst reload.simps)
      (simp add: demo_pass_1 [OF assms] scanned_def assms st1_def hash_check_iff del: be_bytes.simps)
  have d1: "m_data st1 = demo_view (Suc (Suc (Suc n)))" and f1: "m_flush st1 = 2"
    by (simp_all add: st1_def scanned_def)
  define st2 where "st2 = (scanned st1 (Suc (Suc (Suc n))) [(1, 1), (3, 0xFFFFFFFC)] 2)\<lparr>m_flush := - 2\<rparr>"
  have r2: "reload demo_params st1 = reload demo_params st2"
    using demo_hash_nonzero
    by (subst reload.simps)
      (simp add: demo_pass_2 [OF d1 f1] scanned_def f1 st2_def hash_check_iff del: be_bytes.simps)
  have d2: "m_data st2 = demo_view (Suc (Suc (Suc (Suc (Suc (Suc n))))))" and f2: "m_flush st2 = - 2"
    by (simp_all add: st2_def scanned_def)
  have r3: "reload demo_params st2 =
      (scanned st2 (Suc (Suc (Suc (Suc (Suc (Suc n)))))) [(1, 0xFFFFFFFE)] (- 1))
        \<lparr>m_flush := 0, m_error := (m_error st2 OR 16) OR 32\<rparr>"
    by (subst reload.simps) (simp add: demo_pass_3 [OF d2 f2] scanned_def f2)
  show ?thesis
    unfolding r1 r2 r3
    by (simp add: st2_def st1_def scanned_def or.assoc eval_nat_numeral)
qed

text \<open>
  How that container comes about: \<open>init\<close> on an empty view, \<open>add\<close> of the entry in a
  flushing writer, and the end of the writer, which writes the record to blocks 0 and 1
  and the terminator to block 2.
\<close>

definition demo_fresh :: "(bytes, bytes) umap" where
  "demo_fresh = (new_umap empty_view)\<lparr>m_lastf := - 1\<rparr>"

definition demo_item :: "(bytes, bytes) item" where
  "demo_item = ([0x6B], null_control, long_value)"

definition demo_added :: "(bytes, bytes) umap" where
  "demo_added = demo_fresh\<lparr>m_map := [demo_item]\<rparr>"

definition demo_written :: view where
  "demo_written =
     empty_view\<lparr>m_count := 2, ticks := 2,
                m_file := (m_file empty_view)
                  (0 := sealed 0 demo_head, 4096 := sealed 1 demo_cont)\<rparr>"

definition demo_saved :: "(bytes, bytes) umap" where
  "demo_saved =
     \<lparr>m_map = [([0x6B], \<lparr>order = 1, load_block = 0, load_count = 0, new_block = 0, new_count = 2\<rparr>,
                long_value)],
      m_free = [(2, 0xFFFFFFFE)], m_data = demo_written, m_error = 0,
      m_lastf = - 1, m_order = 1, m_flush = 0, m_hash = demo_hash\<rparr>"

definition demo_flushed :: "(bytes, bytes) umap" where
  "demo_flushed =
     \<lparr>m_map = [([0x6B], \<lparr>order = 1, load_block = 0, load_count = 2, new_block = 0, new_count = 0\<rparr>,
                long_value)],
      m_free = [(3, 0xFFFFFFFD), (0xFFFFFFFF, 0)], m_data = demo_view 3, m_error = 0,
      m_lastf = 2, m_order = 2, m_flush = 2, m_hash = demo_hash\<rparr>"

lemma demo_cont_Suc: "fill_block long_record 2 1 (Suc 0) demo_head = demo_cont"
  by (simp add: demo_cont_def)

lemma demo_write_blocks:
  "write_blocks plain_aead long_record 2 1 0 [0, Suc 0] zero_block empty_view = (True, demo_written)"
  by (simp add: write_block_def plain_aead_def empty_view_def lseek_ok_def Let_def
      demo_head_def [symmetric] demo_cont_Suc demo_written_def sealed_def)

lemma demo_terminator:
  "write_block plain_aead demo_written 2 (layout_bytes (term_block 2 demo_hash)) 0 =
     (True, demo_view 3)"
  by (subst write_plain [where n = "replicate 16 0"])
    (simp_all add: demo_written_def demo_view_def empty_view_def lseek_ok_def sealed_def)

lemma demo_cipher: "cipher demo_params = plain_aead" and demo_hmac: "hmac demo_params = toy_hmac"
  by (simp_all add: demo_params_def string_params_def)

lemma demo_init: "init demo_params (Some empty_view) (new_umap empty_view) = Inr demo_fresh"
  by (subst init_no_blocks) (simp_all add: empty_view_def new_umap_def demo_fresh_def)

lemma add_free_none: "add_free b 0 m = m"
  by (simp add: add_free_def)

lemma demo_add:
  "writer_add demo_params [0x6B] long_value id (demo_fresh, False) = (demo_added, True)"
  by (simp add: writer_add_def demo_fresh_def new_umap_def demo_added_def demo_item_def)

lemma demo_write:
  "umap_write demo_params demo_added demo_item =
     Inr (demo_saved\<lparr>m_map := [demo_item]\<rparr>,
          ([0x6B], \<lparr>order = 1, load_block = 0, load_count = 0, new_block = 0, new_count = 2\<rparr>,
           long_value))"
  by (simp add: umap_write_def demo_item_def long_record_def [symmetric] long_record_count
      dirty_def null_control_def reserve_run_def demo_added_def demo_fresh_def new_umap_def
      add_free_none demo_free_7 xor_order_def upt_two demo_write_blocks demo_cipher demo_hmac
      demo_hash_def Let_def demo_saved_def
      del: write_blocks.simps)

lemma demo_write_dirty:
  "write_dirty demo_params demo_added [] (m_map demo_added) =
     Inr (demo_saved\<lparr>m_map := [demo_item]\<rparr>, m_map demo_saved)"
proof -
  have m: "m_map demo_added = [demo_item]" by (simp add: demo_added_def)
  have o: "order (fst (snd demo_item)) = 0" by (simp add: demo_item_def null_control_def)
  show ?thesis
    unfolding m by (simp add: o demo_write) (simp add: demo_saved_def)
qed

lemma demo_finalize: "finalize demo_params demo_saved = Inr demo_flushed"
  by (simp add: finalize_def demo_saved_def view_flush_def demo_free_8 demo_cipher
      demo_terminator demo_free_9 promote_def add_free_none demo_flushed_def)

lemma demo_close: "writer_close demo_params True (demo_added, True) = Inr demo_flushed"
proof -
  have "(demo_saved\<lparr>m_map := [demo_item]\<rparr>)\<lparr>m_map := m_map demo_saved\<rparr> = demo_saved"
    by simp
  then show ?thesis
    by (simp add: writer_close_def demo_write_dirty demo_finalize)
qed

text \<open>
  Opening the container again, with a new map object.
\<close>

definition demo_reopened :: "(bytes, bytes) umap" where
  "demo_reopened =
     \<lparr>m_map = [], m_free = [(2, 0xFFFFFFFD)],
      m_data = (demo_view 13)\<lparr>m_file := (m_file (demo_view 12))
                                  (4096 := sealed 1 (term_block 3 0))\<rparr>,
      m_error = 48, m_lastf = 1, m_order = 3, m_flush = 3, m_hash = 0\<rparr>"

lemma demo_reopen:
  "init demo_params (Some (demo_view 3)) (new_umap (demo_view 3)) = Inr demo_reopened"
proof -
  let ?st = "(new_umap (demo_view 3) :: (bytes, bytes) umap)\<lparr>m_data := demo_view 3, m_flush := - 1\<rparr>"
  have r: "reload demo_params ?st =
      ?st\<lparr>m_map := [], m_free := [(1, 0xFFFFFFFE)], m_data := demo_view (3 + 9),
           m_error := m_error ?st OR 48, m_lastf := - 1, m_order := 2, m_hash := 0,
           m_flush := 0\<rparr>"
    by (rule demo_reload) simp_all
  have w: "write_block plain_aead (demo_view 12) 1 (layout_bytes (term_block 3 0)) 0 =
      (True, (demo_view 13)\<lparr>m_file := (m_file (demo_view 12))(4096 := sealed 1 (term_block 3 0))\<rparr>)"
    by (subst write_plain [where n = "replicate 16 0"])
      (simp_all add: demo_view_def empty_view_def lseek_ok_def sealed_def)
  show ?thesis
    by (simp add: init_def r)
      (simp add: finalize_def new_umap_def view_flush_def demo_free_5 demo_cipher w
        demo_free_6 demo_reopened_def)
qed

theorem long_record_not_reloaded_witness:
  "read_block (cipher demo_params) (demo_view 3) 0 0 = (Some (layout_bytes demo_head), demo_view 4) \<and>
   blk_order (layout_of (layout_bytes demo_head)) = 1 \<and>
   unat (blk_size (layout_of (layout_bytes demo_head))) = 5008 \<and>
   (\<exists>st'. scan_block demo_params 3 0 (replicate 64 0)
             ((new_umap (demo_view 3) :: (bytes, bytes) umap)\<lparr>m_flush := - 1\<rparr>) =
            (0, replicate 64 0, st') \<and>
          m_map st' = [] \<and> m_hash st' = 0 \<and> (m_error st' = 16 \<or> m_error st' = 24))"
proof -
  let ?st = "(new_umap (demo_view 3) :: (bytes, bytes) umap)\<lparr>m_flush := - 1\<rparr>"
  have rd: "read_block (cipher demo_params) (m_data ?st) (ucast (0 :: u32)) 0 =
              (Some (layout_bytes demo_head), demo_view 4)"
    using demo_read_0 [of 3] by (simp add: demo_cipher new_umap_def)
  have ord: "\<not> int64_max \<le> blk_order (layout_of (layout_bytes demo_head)) - 1"
    unfolding layout_inverse demo_blocks by (rule int64_max_small)
  have fl: "\<not> m_flush ?st < blk_order (layout_of (layout_bytes demo_head))"
    unfolding layout_inverse demo_blocks by (simp add: word_less_1)
  have lo: "4032 < unat (blk_size (layout_of (layout_bytes demo_head)))"
    and hi: "blk_size (layout_of (layout_bytes demo_head)) < 2 ^ 31"
    unfolding layout_inverse demo_blocks by simp_all
  show ?thesis
    using long_record_not_reloaded [OF rd ord fl lo hi, of 3 "replicate 64 0"] rd
    by (simp add: layout_inverse demo_blocks new_umap_def)
qed

text \<open>
  Claim C1. A fresh container is opened, the entry with key \<open>"k"\<close> and the value of 5000
  bytes is added in a flushing writer, and the flush completes without an error bit: the
  map holds the entry and the flush order has caught up with the order sequence. Nothing
  else is written. Opening the resulting container again gives an empty map, not the
  map of the flush, and the error bits 16 and 32: the record of two blocks is dropped
  by every scan, so the hash check fails in all three attempts.
\<close>

theorem long_record_lost_after_flush:
  "\<exists>st1 st2 st3.
     init demo_params (Some empty_view) (new_umap empty_view) = Inr st1 \<and>
     writer_close demo_params True (writer_add demo_params [0x6B] long_value id (st1, False)) = Inr st2 \<and>
     map (\<lambda>(k, c, v). (k, v)) (m_map st2) = [([0x6B], long_value)] \<and>
     m_error st2 = 0 \<and> m_flush st2 = m_order st2 \<and>
     init demo_params (Some (m_data st2)) (new_umap (m_data st2)) = Inr st3 \<and>
     m_map st3 = [] \<and> m_error st3 = 48 \<and> m_error st3 AND 32 = 32"
proof -
  have "init demo_params (Some (m_data demo_flushed)) (new_umap (m_data demo_flushed)) = Inr demo_reopened"
    using demo_reopen by (simp add: demo_flushed_def)
  moreover have "map (\<lambda>(k, c, v). (k, v)) (m_map demo_flushed) = [([0x6B], long_value)]"
    and "m_error demo_flushed = 0" and "m_flush demo_flushed = m_order demo_flushed"
    by (simp_all add: demo_flushed_def)
  moreover have "m_map demo_reopened = []" and "m_error demo_reopened = 48"
    and "m_error demo_reopened AND 32 = 32"
    by (simp_all add: demo_reopened_def)
  ultimately show ?thesis
    using demo_init demo_add demo_close by simp
qed

subsection \<open>The combined hash at a flush\<close>

text \<open>
  An entry is live when its order is not 0; its head block is the first block of the run
  written last (\<open>head_block\<close>). \<open>live_hash\<close> is the XOR, over the live entries of a map,
  of the keyed hash of the 16 bytes order, head block.
\<close>

definition live :: "('k, 'v) item \<Rightarrow> bool" where
  "live item \<longleftrightarrow> order (fst (snd item)) \<noteq> 0"

definition entry_hash :: "('k, 'v) params \<Rightarrow> ('k, 'v) item \<Rightarrow> 512 word" where
  "entry_hash P item =
     hmac P (be64 (order (fst (snd item))) @ be64 (ucast (head_block (fst (snd item)))))"

definition live_hash :: "('k, 'v) params \<Rightarrow> ('k, 'v) item list \<Rightarrow> 512 word" where
  "live_hash P items = foldr (\<lambda>item h. entry_hash P item XOR h) (filter live items) 0"

lemma live_hash_Nil [simp]: "live_hash P [] = 0"
  by (simp add: live_hash_def)

lemma live_hash_Cons:
  "live_hash P (item # items) = (if live item then entry_hash P item else 0) XOR live_hash P items"
  by (simp add: live_hash_def)

lemma live_hash_append: "live_hash P (xs @ ys) = live_hash P xs XOR live_hash P ys"
  by (induction xs) (simp_all add: live_hash_Cons xor.assoc)

lemma live_hash_snoc:
  "live_hash P (xs @ [item]) = live_hash P xs XOR (if live item then entry_hash P item else 0)"
  by (simp add: live_hash_append live_hash_Cons)

text \<open>
  \<open>write\<close> of an entry that is marked as to be written: if the blocks are written, the
  entry is live with the new order and its contribution is in the hash; if a write fails,
  the entry stays out of the hash. Key and value are those of the entry.
\<close>

lemma umap_write_hash:
  assumes w: "umap_write P st item = Inr (st1, item1)"
    and dirty_item: "\<not> live item"
    and cnt: "block_count (item_bytes P (fst item) (snd (snd item))) \<noteq> 0"
    and nowrap: "m_order st + 1 \<noteq> 0"
  shows "m_hash st1 = m_hash st XOR (if live item1 then entry_hash P item1 else 0) \<and>
         fst item1 = fst item \<and> snd (snd item1) = snd (snd item) \<and>
         m_flush st1 = m_flush st \<and> m_lastf st1 = m_lastf st \<and> m_map st1 = m_map st \<and>
         (m_order st1 = m_order st \<or> m_order st1 = m_order st + 1)"
proof -
  obtain k ctrl v where item: "item = (k, ctrl, v)" by (cases item) auto
  define count where "count = block_count (item_bytes P k v)"
  have c0: "count \<noteq> 0" using cnt by (simp add: item count_def)
  have o: "order ctrl = 0" using dirty_item by (simp add: live_def item)
  define st2 where "st2 = st\<lparr>m_order := m_order st + 1\<rparr>"
  define ctrl2 where "ctrl2 = ctrl\<lparr>order := m_order st + 1\<rparr>"
  have d: "dirty P st item = (st, item)" by (simp add: dirty_def item o)
  obtain st3 ctrl3 where r: "reserve_run count st2 ctrl2 = Inr (st3, ctrl3)"
    using w
    by (cases "reserve_run count st2 ctrl2")
      (auto simp: umap_write_def item d [unfolded item] Let_def count_def st2_def ctrl2_def)
  have r3: "order ctrl3 = m_order st + 1 \<and> new_count ctrl3 = count \<and>
            m_hash st3 = m_hash st \<and> m_flush st3 = m_flush st \<and> m_lastf st3 = m_lastf st \<and>
            m_map st3 = m_map st \<and> m_error st3 = m_error st \<and> m_order st3 = m_order st + 1"
    using r
    by (auto simp: reserve_run_def st2_def ctrl2_def split: if_splits sum.splits)
  define h where "h = hmac P (be64 (order ctrl3) @ be64 (ucast (new_block ctrl3)))"
  define st4 where "st4 = st3\<lparr>m_hash := xor_order P (order ctrl3) (ucast (new_block ctrl3)) (m_hash st3)\<rparr>"
  obtain ok v1 where wb: "write_blocks (cipher P) (item_bytes P k v) count (order ctrl3) (new_block ctrl3)
                       [0..<unat count] zero_block (m_data st3) = (ok, v1)"
    by (cases "write_blocks (cipher P) (item_bytes P k v) count (order ctrl3) (new_block ctrl3)
                       [0..<unat count] zero_block (m_data st3)") auto
  have u: "umap_write P st item =
      (if ok then Inr (st4\<lparr>m_data := v1\<rparr>, (k, ctrl3, v))
       else Inr (st4\<lparr>m_data := v1,
                      m_free := add_free (new_block ctrl3) (new_count ctrl3) (m_free st4),
                      m_hash := xor_order P (order ctrl3) (ucast (new_block ctrl3)) (m_hash st4),
                      m_error := m_error st4 OR 64,
                      m_order := m_order st4 - 1\<rparr>,
                 (k, ctrl3\<lparr>new_block := 0, new_count := 0, order := 0\<rparr>, v)))"
    unfolding umap_write_def
    by (simp add: item d [unfolded item] Let_def count_def [symmetric] st2_def [symmetric]
        ctrl2_def [symmetric] r wb st4_def)
  show ?thesis
  proof (cases ok)
    case True
    then have s: "st1 = st4\<lparr>m_data := v1\<rparr>" and i: "item1 = (k, ctrl3, v)"
      using w u by simp_all
    have "live item1" using r3 nowrap by (simp add: i live_def)
    moreover have "entry_hash P item1 = h"
      using r3 c0 by (simp add: i entry_hash_def head_block_def h_def)
    ultimately show ?thesis
      using r3 by (simp add: s i st4_def xor_order_def h_def item)
  next
    case False
    then have s: "st1 = st4\<lparr>m_data := v1,
                      m_free := add_free (new_block ctrl3) (new_count ctrl3) (m_free st4),
                      m_hash := xor_order P (order ctrl3) (ucast (new_block ctrl3)) (m_hash st4),
                      m_error := m_error st4 OR 64,
                      m_order := m_order st4 - 1\<rparr>"
      and i: "item1 = (k, ctrl3\<lparr>new_block := 0, new_count := 0, order := 0\<rparr>, v)"
      using w u by simp_all
    have "\<not> live item1" by (simp add: i live_def)
    then show ?thesis
      using r3 by (simp add: s i st4_def xor_order_def xor.assoc item)
  qed
qed


lemma u64_succ:
  assumes "unat (x :: u64) + 1 < 2 ^ 64"
  shows "x + 1 \<noteq> 0" and "unat (x + 1) = unat x + 1"
proof -
  show u: "unat (x + 1) = unat x + 1"
    using assms by (simp add: unat_add_lem [THEN iffD1])
  show "x + 1 \<noteq> 0"
  proof
    assume "x + 1 = 0"
    then have "unat (x + 1) = 0" by simp
    then show False using u by simp
  qed
qed

lemma write_dirty_hash:
  assumes "write_dirty P st done todo = Inr (st1, items)"
    and "m_hash st = live_hash P (done @ todo)"
    and "\<forall>it \<in> set todo. block_count (item_bytes P (fst it) (snd (snd it))) \<noteq> 0"
    and "unat (m_order st) + length todo < 2 ^ 64"
  shows "m_hash st1 = live_hash P items \<and> m_flush st1 = m_flush st \<and> m_lastf st1 = m_lastf st \<and>
         m_map st1 = m_map st \<and> unat (m_order st) \<le> unat (m_order st1) \<and>
         unat (m_order st1) \<le> unat (m_order st) + length todo"
  using assms
proof (induction todo arbitrary: st "done")
  case Nil
  then show ?case by simp
next
  case (Cons item rest)
  show ?case
  proof (cases "live item")
    case True
    then have step: "write_dirty P st (done @ [item]) rest = Inr (st1, items)"
      using Cons.prems(1) by (simp add: live_def)
    have "m_hash st = live_hash P ((done @ [item]) @ rest)"
      using Cons.prems(2) by simp
    from Cons.IH [OF step this] Cons.prems(3,4) show ?thesis by simp
  next
    case False
    then have o: "order (fst (snd item)) = 0" by (simp add: live_def)
    obtain st2 item1 where w: "umap_write P st item = Inr (st2, item1)"
      using Cons.prems(1) o by (cases "umap_write P st item") auto
    have step: "write_dirty P st2 (done @ [item1]) rest = Inr (st1, items)"
      using Cons.prems(1) o w by simp
    have cnt: "block_count (item_bytes P (fst item) (snd (snd item))) \<noteq> 0"
      using Cons.prems(3) by simp
    have room: "unat (m_order st) + 1 < 2 ^ 64" using Cons.prems(4) by simp
    note uw = umap_write_hash [OF w False cnt u64_succ(1) [OF room]]
    have ord: "unat (m_order st) \<le> unat (m_order st2) \<and> unat (m_order st2) \<le> unat (m_order st) + 1"
      using uw u64_succ(2) [OF room] by auto
    have h: "m_hash st2 = live_hash P ((done @ [item1]) @ rest)"
      using uw Cons.prems(2) False
      by (simp add: live_hash_append live_hash_Cons xor.assoc xor.commute xor.left_commute)
    have room2: "unat (m_order st2) + length rest < 2 ^ 64" using ord Cons.prems(4) by simp
    have rest: "\<forall>it \<in> set rest. block_count (item_bytes P (fst it) (snd (snd it))) \<noteq> 0"
      using Cons.prems(3) by simp
    from Cons.IH [OF step h rest room2] uw ord show ?thesis by simp
  qed
qed

lemma promote_hash: "live_hash P [snd (promote fm item)] = live_hash P [item]"
  by (cases item) (simp add: promote_def live_hash_Cons live_def entry_hash_def head_block_def)

lemma promote_all_hash: "live_hash P (snd (promote_all fm items)) = live_hash P items"
proof (induction items arbitrary: fm)
  case Nil
  then show ?case by simp
next
  case (Cons item rest)
  obtain fm1 item1 where p: "promote fm item = (fm1, item1)" by (cases "promote fm item") auto
  obtain fm2 rest1 where q: "promote_all fm1 rest = (fm2, rest1)"
    by (cases "promote_all fm1 rest") auto
  have "live_hash P [item1] = live_hash P [item]" using promote_hash [of P fm item] p by simp
  moreover have "live_hash P rest1 = live_hash P rest" using Cons.IH [of fm1] q by simp
  ultimately show ?case
    using live_hash_append [of P "[item1]" rest1] live_hash_append [of P "[item]" rest]
    by (simp add: p q)
qed


lemma read_written_block:
  assumes w: "write_block cph v i buf c = (True, v1)"
    and ok: "aead_correct cph" and dec: "m_dec v1" and io: "io_ok v1 (ticks v1)"
    and small: "unat i + 1 < 2 ^ 64"
  shows "fst (read_block cph v1 i c) = Some buf"
proof -
  from write_block_success [OF w] obtain n ct tg
    where sl: "seal cph n (aad_bytes c i) buf = Some (ct, tg)"
      and le: "i \<le> m_count v" and seek: "lseek_ok (i * 4096)"
      and v1: "v1 = v\<lparr>ticks := Suc (ticks v),
                  m_file := (m_file v)(i * 4096 := \<lparr>nonce = n, ciphertext = ct, tag = tg\<rparr>),
                  m_count := (if i = m_count v then i + 1 else m_count v)\<rparr>"
    by blast
  have lt: "i < m_count v1"
  proof (cases "i = m_count v")
    case True
    then show ?thesis using v1 u64_succ(2) [OF small] by (simp add: word_less_nat_alt)
  next
    case False
    then show ?thesis using v1 le by simp
  qed
  show ?thesis
    using lt seek sl ok v1 dec io unfolding aead_correct_def
    by (auto simp: read_block_def Let_def not_le)
qed

lemma ucast_u32_small: "unat (ucast (x :: u32) :: u64) + 1 < 2 ^ 64"
proof -
  have lt: "unat x < 2 ^ 32" using unsigned_less [of x, where 'a = nat] by simp
  then have "unat x < 2 ^ 64" by simp
  then have "take_bit 64 (unat x) = unat x" by (simp add: take_bit_nat_eq_self_iff)
  then have "unat (ucast x :: u64) = unat x" by (simp add: unsigned_ucast_eq)
  then show ?thesis using lt by simp
qed

text \<open>
  Claim C5. A call of \<open>finalize\<close> that writes a terminator advances the flush order;
  this is how the theorem picks out the calls that succeed. It starts in a state whose
  accumulator is the hash of the live entries (which \<open>reload\<close> and the writer maintain),
  with entries whose encoding is not empty, and with room for the orders it assigns.
  Afterwards the accumulator is the hash of the live entries of the map as it is then,
  and the block that \<open>m_lastf\<close> names reads back (under a cipher that opens what it
  sealed, when the transfer succeeds) as a terminator of the new flush order whose data
  starts with the 64 bytes of the accumulator.
\<close>

theorem terminator_holds_live_hash:
  assumes inv: "m_hash st = live_hash P (m_map st)"
    and enc: "\<forall>it \<in> set (m_map st). block_count (item_bytes P (fst it) (snd (snd it))) \<noteq> 0"
    and room: "unat (m_order st) + length (m_map st) < 2 ^ 64"
    and fin: "finalize P st = Inr st'"
    and adv: "m_flush st' \<noteq> m_flush st"
    and cph: "aead_correct (cipher P)"
    and dec: "m_dec (m_data st')" and io: "io_ok (m_data st') (ticks (m_data st'))"
  shows "m_hash st' = live_hash P (m_map st') \<and>
         (\<exists>payload. fst (read_block (cipher P) (m_data st') (ucast (m_lastf st')) 0) = Some payload \<and>
            blk_size (layout_of payload) = 0 \<and> blk_order (layout_of payload) = m_flush st' \<and>
            take 64 (blk_data (layout_of payload)) = be_bytes 64 (m_hash st'))"
proof -
  have go: "\<not> m_order st \<le> m_flush st"
    using fin adv by (auto simp: finalize_def split: if_splits)
  obtain st1 items where wd: "write_dirty P st [] (m_map st) = Inr (st1, items)"
    using fin go by (cases "write_dirty P st [] (m_map st)") (auto simp: finalize_def)
  have h1: "m_hash st1 = live_hash P items" and f1: "m_flush st1 = m_flush st"
    using write_dirty_hash [OF wd _ enc room] inv by simp_all
  define st2 where "st2 = st1\<lparr>m_map := items, m_data := view_flush (m_data st1)\<rparr>"
  obtain new_pos fm where gf: "get_free 1 (m_free st2) = Inr (new_pos, fm)"
    using fin go wd
    by (cases "get_free 1 (m_free st2)") (auto simp: finalize_def Let_def st2_def)
  define st3 where "st3 = st2\<lparr>m_free := fm, m_order := m_order st2 + 1\<rparr>"
  define trm where "trm = term_block (m_order st3) (m_hash st3)"
  obtain b v1 where wb: "write_block (cipher P) (m_data st3) (ucast new_pos) (layout_bytes trm) 0 = (b, v1)"
    by (cases "write_block (cipher P) (m_data st3) (ucast new_pos) (layout_bytes trm) 0") auto
  define st4 where "st4 = st3\<lparr>m_data := view_flush v1,
                                        m_free := add_free (m_lastf st3) 1 (m_free st3),
                                        m_lastf := new_pos,
                                        m_flush := m_order st3\<rparr>"
  have unfold: "finalize P st =
      (if b then (case promote_all (m_free st4) (m_map st4) of
                    (fm1, items1) \<Rightarrow> Inr (st4\<lparr>m_free := fm1, m_map := items1\<rparr>))
       else Inr (st3\<lparr>m_data := v1, m_order := m_order st3 - 1,
                                   m_error := m_error st3 OR 128,
                                   m_free := add_free new_pos 1 (m_free st3)\<rparr>))"
    using go wd gf wb
    unfolding finalize_def st4_def trm_def st3_def st2_def
    by (simp add: Let_def)
  have b: "b"
  proof (rule ccontr)
    assume "\<not> b"
    then have "m_flush st' = m_flush st"
      using fin unfold by (auto simp: st3_def st2_def f1)
    then show False using adv by simp
  qed
  obtain fm1 items1 where pa: "promote_all (m_free st4) (m_map st4) = (fm1, items1)"
    by (cases "promote_all (m_free st4) (m_map st4)") auto
  have st': "st' = st4\<lparr>m_free := fm1, m_map := items1\<rparr>"
    using fin unfold b pa by simp
  have m4: "m_map st4 = items" by (simp add: st4_def st3_def st2_def)
  have "live_hash P items1 = live_hash P items"
    using promote_all_hash [of P "m_free st4" "m_map st4"] pa m4 by simp
  then have hash: "m_hash st' = live_hash P (m_map st')"
    using h1 by (simp add: st' st4_def st3_def st2_def)
  have w: "write_block (cipher P) (m_data st3) (ucast new_pos) (layout_bytes trm) 0 = (True, v1)"
    using wb b by simp
  have d': "m_data st' = v1" by (simp add: st' st4_def view_flush_def)
  have rb: "fst (read_block (cipher P) (m_data st') (ucast (m_lastf st')) 0) = Some (layout_bytes trm)"
    using read_written_block [OF w cph _ _ ucast_u32_small] dec io
    by (simp add: d' st' st4_def view_flush_def)
  have "blk_size trm = 0" and "blk_order trm = m_flush st'"
    and "take 64 (blk_data trm) = be_bytes 64 (m_hash st')"
    by (simp_all add: trm_def term_block_fields st' st4_def del: be_bytes.simps)
  then show ?thesis
    using hash rb by (simp add: layout_inverse del: be_bytes.simps)
qed


theorem terminator_holds_live_hash_witness:
  "m_hash demo_saved = live_hash demo_params (m_map demo_saved) \<and>
   finalize demo_params demo_saved = Inr demo_flushed \<and>
   m_flush demo_flushed \<noteq> m_flush demo_saved \<and>
   m_hash demo_flushed = toy_hmac (be64 1 @ be64 0) \<and>
   m_hash demo_flushed = live_hash demo_params (m_map demo_flushed) \<and>
   (\<exists>payload.
      fst (read_block (cipher demo_params) (m_data demo_flushed) (ucast (m_lastf demo_flushed)) 0) =
        Some payload \<and>
      blk_size (layout_of payload) = 0 \<and> blk_order (layout_of payload) = m_flush demo_flushed \<and>
      take 64 (blk_data (layout_of payload)) = be_bytes 64 (m_hash demo_flushed))"
proof -
  have inv: "m_hash demo_saved = live_hash demo_params (m_map demo_saved)"
    by (simp add: live_hash_def live_def entry_hash_def head_block_def demo_saved_def demo_hmac
        demo_hash_def)
  have enc: "\<forall>it \<in> set (m_map demo_saved).
      block_count (item_bytes demo_params (fst it) (snd (snd it))) \<noteq> 0"
    by (simp add: demo_saved_def long_record_def [symmetric] long_record_count)
  have room: "unat (m_order demo_saved) + length (m_map demo_saved) < 2 ^ 64"
    by (simp add: demo_saved_def)
  have adv: "m_flush demo_flushed \<noteq> m_flush demo_saved"
    by (simp add: demo_flushed_def demo_saved_def)
  have cph: "aead_correct (cipher demo_params)"
    by (simp add: demo_cipher plain_aead_ok)
  have dec: "m_dec (m_data demo_flushed)"
    and io: "io_ok (m_data demo_flushed) (ticks (m_data demo_flushed))"
    by (simp_all add: demo_flushed_def demo_view_def empty_view_def)
  have h: "m_hash demo_flushed = toy_hmac (be64 1 @ be64 0)"
    by (simp add: demo_flushed_def demo_hash_def)
  note c = terminator_holds_live_hash [OF inv enc room demo_finalize adv cph dec io]
  show ?thesis
    by (intro conjI inv demo_finalize adv h c [THEN conjunct1] c [THEN conjunct2])
qed

subsection \<open>The accumulator in the states the map reaches\<close>

text \<open>
  \<open>hash_inv\<close> is the premise of the theorem above. \<open>reload\<close> establishes it from any state,
  together with what it needs on the way (\<open>loaded\<close>: one entry per key, every entry live
  and without a new run); the writer and \<open>finalize\<close> keep it.
\<close>

definition hash_inv :: "('k, 'v) params \<Rightarrow> ('k, 'v) umap \<Rightarrow> bool" where
  "hash_inv P st \<longleftrightarrow> m_hash st = live_hash P (m_map st)"

definition loaded :: "('k, 'v) params \<Rightarrow> ('k, 'v) umap \<Rightarrow> bool" where
  "loaded P st \<longleftrightarrow>
     hash_inv P st \<and> distinct (map fst (m_map st)) \<and>
     list_all (\<lambda>it. live it \<and> new_count (fst (snd it)) = 0) (m_map st)"

definition contribution :: "('k, 'v) params \<Rightarrow> ('k, 'v) item \<Rightarrow> 512 word" where
  "contribution P item = (if live item then entry_hash P item else 0)"

lemma live_hash_contribution:
  "live_hash P (item # items) = contribution P item XOR live_hash P items"
  by (simp add: live_hash_Cons contribution_def)

lemma live_hash_replace:
  assumes "distinct (map fst m)" and "map_of m k = Some cv" and "fst new = k"
  shows "live_hash P (map (\<lambda>it. if fst it = k then new else it) m) =
           live_hash P m XOR contribution P (k, cv) XOR contribution P new"
  using assms(1,2)
proof (induction m)
  case Nil
  then show ?case by simp
next
  case (Cons a m)
  show ?case
  proof (cases "fst a = k")
    case True
    then have a: "a = (k, cv)" using Cons.prems(2) by (cases a) simp
    have "k \<notin> fst ` set m" using Cons.prems(1) True by auto
    then have "map (\<lambda>it. if fst it = k then new else it) m = m"
      by (intro map_idI) auto
    then show ?thesis
      using True
      by (simp add: live_hash_contribution a xor.assoc xor.commute xor.left_commute)
  next
    case False
    then have "map_of m k = Some cv" using Cons.prems(2) by (cases a) auto
    then have "live_hash P (map (\<lambda>it. if fst it = k then new else it) m) =
           live_hash P m XOR contribution P (k, cv) XOR contribution P new"
      using Cons.IH Cons.prems(1) by simp
    then show ?thesis using False by (simp add: live_hash_contribution xor.assoc)
  qed
qed

lemma loaded_cong:
  assumes "m_map a = m_map b" and "m_hash a = m_hash b"
  shows "loaded P a = loaded P b"
  using assms by (simp add: loaded_def hash_inv_def)

lemma load_record_loaded:
  assumes ld: "loaded P st" and ord: "ord \<noteq> 0"
  shows "loaded P (load_record P ord blk cnt ord key ctx1 st)"
proof -
  have inv: "m_hash st = live_hash P (m_map st)" and dist: "distinct (map fst (m_map st))"
    and all: "list_all (\<lambda>it. live it \<and> new_count (fst (snd it)) = 0) (m_map st)"
    using ld by (simp_all add: loaded_def hash_inv_def)
  define items where "items = (if key \<in> fst ` set (m_map st) then m_map st
                   else m_map st @ [(key, null_control, default_val P)])"
  have idist: "distinct (map fst items)" using dist by (auto simp: items_def)
  have ihash: "live_hash P items = m_hash st"
    by (simp add: items_def inv live_hash_snoc live_def null_control_def)
  have iall: "list_all (\<lambda>it. new_count (fst (snd it)) = 0) items"
    using all by (auto simp: items_def list_all_iff null_control_def)
  have ilive: "list_all (\<lambda>it. fst it \<noteq> key \<longrightarrow> live it) items"
    using all by (auto simp: items_def list_all_iff)
  have "key \<in> fst ` set items" by (auto simp: items_def)
  then obtain ctrl v where mo: "map_of items key = Some (ctrl, v)"
    by (metis domIff dom_map_of_conv_image_fst not_Some_eq surj_pair)
  then have mem: "(key, ctrl, v) \<in> set items" by (rule map_of_SomeD)
  have nc: "new_count ctrl = 0" using iall mem by (auto simp: list_all_iff)
  have old: "order ctrl \<noteq> 0 \<longrightarrow> entry_hash P (key, ctrl, v) =
               hmac P (be64 (order ctrl) @ be64 (ucast (load_block ctrl)))"
    by (simp add: entry_hash_def head_block_def nc)
  have unfold: "load_record P ord blk cnt ord key ctx1 st =
     (if order ctrl < ord
      then
        let st1 = (if order ctrl \<noteq> 0
                   then st\<lparr>m_hash := xor_order P (order ctrl) (ucast (load_block ctrl)) (m_hash st),
                           m_free := add_free (load_block ctrl) (load_count ctrl) (m_free st)\<rparr>
                   else st);
            ctrl1 = ctrl\<lparr>order := ord, load_block := blk, load_count := cnt\<rparr>
        in st1\<lparr>m_map := map (\<lambda>it. if fst it = key
                                    then (key, ctrl1, fst (get_val P ctx1)) else it) items,
                m_hash := xor_order P ord (ucast blk) (m_hash st1)\<rparr>
      else free_blocks blk cnt (st\<lparr>m_map := items\<rparr>))"
    unfolding load_record_def Let_def items_def [symmetric] mo by simp
  show ?thesis
  proof (cases "order ctrl < ord")
    case False
    then have "load_record P ord blk cnt ord key ctx1 st = free_blocks blk cnt (st\<lparr>m_map := items\<rparr>)"
      unfolding unfold by simp
    moreover have "key \<in> fst ` set (m_map st)"
    proof (rule ccontr)
      assume absent: "key \<notin> fst ` set (m_map st)"
      then have "map_of items key = Some (null_control, default_val P)"
        by (simp add: items_def map_of_eq_None_iff [THEN iffD2] map_add_def)
      then have "order ctrl = 0" using mo by (simp add: null_control_def)
      then show False using False ord by (simp add: word_neq_0_conv)
    qed
    then have "items = m_map st" by (simp add: items_def)
    ultimately show ?thesis
      using ld by (simp add: loaded_def hash_inv_def free_blocks_def)
  next
    case True
    define ctrl1 where "ctrl1 = ctrl\<lparr>order := ord, load_block := blk, load_count := cnt\<rparr>"
    define new where "new = (key, ctrl1, fst (get_val P ctx1))"
    define items1 where "items1 = map (\<lambda>it. if fst it = key then new else it) items"
    have lnew: "live new" and cnew: "new_count (fst (snd new)) = 0"
      using ord nc by (simp_all add: new_def ctrl1_def live_def)
    have enew: "entry_hash P new = hmac P (be64 ord @ be64 (ucast blk))"
      using nc by (simp add: new_def ctrl1_def entry_hash_def head_block_def)
    have rep: "live_hash P items1 =
                 live_hash P items XOR contribution P (key, ctrl, v) XOR contribution P new"
      unfolding items1_def by (rule live_hash_replace [OF idist mo]) (simp add: new_def)
    have res: "m_map (load_record P ord blk cnt ord key ctx1 st) = items1"
      "m_hash (load_record P ord blk cnt ord key ctx1 st) =
         m_hash st XOR contribution P (key, ctrl, v) XOR contribution P new"
      using True old lnew enew
      unfolding unfold Let_def
      by (auto simp: items1_def new_def ctrl1_def contribution_def live_def xor_order_def xor.assoc)
    have d1: "distinct (map fst items1)"
    proof -
      have "map fst items1 = map fst items"
        by (simp add: items1_def new_def comp_def cong: map_cong)
      then show ?thesis using idist by simp
    qed
    have a1: "list_all (\<lambda>it. live it \<and> new_count (fst (snd it)) = 0) items1"
      using iall ilive lnew cnew by (auto simp: items1_def list_all_iff)
    show ?thesis
      using res rep ihash d1 a1 by (simp add: loaded_def hash_inv_def)
  qed
qed


lemma cont_loop_order:
  assumes "cont_loop P count ord blk i j n buf sbuf st = (i1, n1, buf1, sbuf1, st1)"
    and "blk_order sbuf = ord"
  shows "n1 = 0 \<longrightarrow> blk_order sbuf1 = ord"
  using assms
proof (induction P count ord blk i j n buf sbuf st rule: cont_loop.induct)
  case (1 P count ord blk i j sz buf sbuf st)
  note unfold = cont_loop.simps [of P count ord blk i j sz buf sbuf st]
  show ?case
  proof (cases "data_len < sz \<and> j < count")
    case False
    have "(i, sz, buf, sbuf, st) = (i1, n1, buf1, sbuf1, st1)"
      using "1.prems"(1) unfolding unfold if_not_P [OF False] .
    then show ?thesis using "1.prems"(2) by simp
  next
    case True
    note step = "1.prems"(1) [unfolded unfold if_P [OF True]]
    obtain r0 v1 where rb: "read_block (cipher P) (m_data st) (ucast i) 0 = (r0, v1)"
      by (cases "read_block (cipher P) (m_data st) (ucast i) 0") auto
    show ?thesis
    proof (cases r0)
      case None
      then show ?thesis using step rb True by auto
    next
      case (Some payload)
      show ?thesis
      proof (cases "blk_order (layout_of payload) \<noteq> ord \<or> blk_size (layout_of payload) \<noteq> - 1")
        case bad: True
        then show ?thesis using step rb Some True by (auto simp: Let_def)
      next
        case good: False
        have rec: "cont_loop P count ord blk (i + 1) (j + 1) (sz - min sz data_len)
              (buf @ take (min sz data_len) (blk_data (layout_of payload))) (layout_of payload)
              (st\<lparr>m_data := v1\<rparr>) = (i1, n1, buf1, sbuf1, st1)"
          using step rb Some good by (simp add: Let_def)
        show ?thesis
          using "1.IH" [OF True rb [symmetric] Some refl good rec] good by simp
      qed
    qed
  qed
qed

lemma scan_data_loaded:
  assumes ld: "loaded P st" and ord: "blk_order sbuf \<noteq> 0"
  shows "loaded P (snd (snd (scan_data P count i lh (blk_order sbuf) sbuf st)))"
proof -
  define sz where "sz = unat (blk_size sbuf)"
  define r where "r = cont_loop P count (blk_order sbuf) i i (i + 1) (sz - min sz data_len)
                (take (min sz data_len) (blk_data sbuf)) sbuf st"
  obtain x sz2 buf1 sbuf1 st2 where r: "r = (x, sz2, buf1, sbuf1, st2)"
    by (cases r) blast
  have fr: "m_map st2 = m_map st" "m_hash st2 = m_hash st"
    using cont_loop_frame [OF r [unfolded r_def]] by simp_all
  have ld2: "loaded P st2" using ld loaded_cong [OF fr] by simp
  have so: "sz2 = 0 \<longrightarrow> blk_order sbuf1 = blk_order sbuf"
    using cont_loop_order [OF r [unfolded r_def] refl] .
  have unfold: "scan_data P count i lh (blk_order sbuf) sbuf st =
      (if sz2 \<noteq> 0 then (x, lh, set_error 16 st2)
       else (x, lh, load_record P (blk_order sbuf) i ((x + 1) - i) (blk_order sbuf1)
                      (fst (get_key P (reading_context buf1)))
                      (snd (get_key P (reading_context buf1))) st2))"
    unfolding scan_data_def Let_def sz_def [symmetric] r_def [symmetric] r
    by (simp add: case_prod_beta)
  show ?thesis
  proof (cases "sz2 = 0")
    case True
    then show ?thesis
      unfolding unfold using so load_record_loaded [OF ld2 ord] by simp
  next
    case False
    have "loaded P (set_error 16 st2)"
      using ld2 loaded_cong [of "set_error 16 st2" st2 P] by (simp add: set_error_def)
    then show ?thesis unfolding unfold using False by simp
  qed
qed

lemma scan_term_loaded:
  assumes "loaded P st"
  shows "loaded P (snd (snd (scan_term i lh ord sbuf st)))"
proof -
  have "m_map (snd (snd (scan_term i lh ord sbuf st))) = m_map st"
    and "m_hash (snd (snd (scan_term i lh ord sbuf st))) = m_hash st"
    by (simp_all add: scan_term_def free_blocks_def)
  from loaded_cong [OF this] assms show ?thesis by simp
qed

lemma scan_block_loaded:
  assumes ld: "loaded P st"
  shows "loaded P (snd (snd (scan_block P count i lh st)))"
proof -
  obtain r0 v1 where rb: "read_block (cipher P) (m_data st) (ucast i) 0 = (r0, v1)"
    by (cases "read_block (cipher P) (m_data st) (ucast i) 0") auto
  have keep: "\<And>st'. m_map st' = m_map st \<Longrightarrow> m_hash st' = m_hash st \<Longrightarrow> loaded P st'"
    using ld loaded_cong by blast
  show ?thesis
  proof (cases r0)
    case None
    then show ?thesis
      by (simp add: scan_block_def rb) (rule keep; simp add: free_blocks_def set_error_def)
  next
    case (Some payload)
    define sbuf where "sbuf = layout_of payload"
    define st1 where "st1 = (if m_flush st \<noteq> - 1 \<and> m_order st < blk_order sbuf
                          then st\<lparr>m_data := v1, m_order := blk_order sbuf\<rparr>
                          else st\<lparr>m_data := v1\<rparr>)"
    have ld1: "loaded P st1" by (rule keep) (simp_all add: st1_def)
    have unfold: "scan_block P count i lh st =
      (if int64_max \<le> blk_order sbuf - 1
       then (i, lh, free_blocks i 1 (set_error 2 (st\<lparr>m_data := v1\<rparr>)))
       else if 2 ^ 31 \<le> blk_size sbuf
       then (i, lh, free_blocks i 1 (if blk_size sbuf \<noteq> - 1 then set_error 2 (st\<lparr>m_data := v1\<rparr>)
                                     else st\<lparr>m_data := v1\<rparr>))
       else if m_flush st1 < blk_order sbuf then (i, lh, free_blocks i 1 (set_error 4 st1))
       else if blk_size sbuf = 0 then scan_term i lh (blk_order sbuf) sbuf st1
       else scan_data P count i lh (blk_order sbuf) sbuf st1)"
      unfolding scan_block_def rb Some st1_def sbuf_def by (simp add: Let_def)
    have nz: "\<not> int64_max \<le> blk_order sbuf - 1 \<Longrightarrow> blk_order sbuf \<noteq> 0"
      by (auto simp: int64_max_def)
    show ?thesis
    proof (cases "int64_max \<le> blk_order sbuf - 1")
      case True
      then show ?thesis
        unfolding unfold by simp (rule keep; simp add: free_blocks_def set_error_def)
    next
      case valid: False
      show ?thesis
      proof (cases "2 ^ 31 \<le> blk_size sbuf")
        case True
        then show ?thesis
          unfolding unfold using valid
          by (auto intro!: keep simp: free_blocks_def set_error_def)
      next
        case size: False
        show ?thesis
        proof (cases "m_flush st1 < blk_order sbuf")
          case True
          have "loaded P (free_blocks i 1 (set_error 4 st1))"
            using ld1 loaded_cong [of "free_blocks i 1 (set_error 4 st1)" st1 P]
            by (simp add: free_blocks_def set_error_def)
          then show ?thesis unfolding unfold using valid size True by simp
        next
          case False
          then show ?thesis
            unfolding unfold
            using valid size scan_term_loaded [OF ld1] scan_data_loaded [OF ld1 nz [OF valid]]
            by simp
        qed
      qed
    qed
  qed
qed

lemma scan_loaded:
  assumes "loaded P st"
  shows "loaded P (snd (scan P count i lh st))"
  using assms
proof (induction P count i lh st rule: scan.induct)
  case (1 P count i last_hash st)
  note unfold = scan.simps [of P count i last_hash st]
  show ?case
  proof (cases "i < count")
    case False
    then show ?thesis using "1.prems" unfolding unfold by simp
  next
    case True
    obtain i1 lh2 st2 where sb: "scan_block P count i last_hash st = (i1, lh2, st2)"
      by (cases "scan_block P count i last_hash st") auto
    have "loaded P st2" using scan_block_loaded [OF "1.prems", of count i last_hash] sb by simp
    from "1.IH" [OF True sb [symmetric] refl this] show ?thesis
      unfolding unfold using True sb by simp
  qed
qed

lemma reload_scan_loaded: "loaded P (snd (reload_scan P st))"
proof -
  define count where "count = (ucast ((m_count (m_data st) * 4064) div 4064) :: u32)"
  define st0 where "st0 = free_blocks count (0 - count)
                  (st\<lparr>m_map := [], m_free := [], m_hash := 0, m_order := 0, m_lastf := - 1\<rparr>)"
  have "loaded P st0"
    by (simp add: st0_def loaded_def hash_inv_def free_blocks_def)
  then have "loaded P (snd (scan P count 0 (replicate 64 0) st0))"
    by (rule scan_loaded)
  moreover have "reload_scan P st = scan P count 0 (replicate 64 0) st0"
    unfolding reload_scan_def Let_def count_def st0_def by (rule refl)
  ultimately show ?thesis by simp
qed

lemma reload_loaded: "loaded P (reload P st)"
proof (induction P st rule: reload.induct)
  case (1 P st)
  obtain lh st1 where rs: "reload_scan P st = (lh, st1)" by (cases "reload_scan P st") auto
  have ld: "loaded P st1" using reload_scan_loaded [of P st] rs by simp
  have keep: "\<And>st'. m_map st' = m_map st1 \<Longrightarrow> m_hash st' = m_hash st1 \<Longrightarrow> loaded P st'"
    using ld loaded_cong by blast
  define st2 where "st2 = st1\<lparr>m_flush := m_order st1\<rparr>"
  have unfold: "reload P st =
          (if m_flush st1 = - 1
           then (if \<not> hash_check st2 lh then reload P st2 else st2)
           else if m_flush st1 = - 2
           then st1\<lparr>m_flush := 0, m_error := m_error st1 OR 32\<rparr>
           else if \<not> hash_check st1 lh
           then reload P (st1\<lparr>m_flush := - 2\<rparr>)
           else st1\<lparr>m_flush := m_order st1\<rparr>)"
    by (subst reload.simps) (simp add: rs st2_def Let_def)
  have k2: "loaded P st2" by (rule keep) (simp_all add: st2_def)
  have k3: "loaded P (st1\<lparr>m_flush := 0, m_error := m_error st1 OR 32\<rparr>)"
    by (rule keep) simp_all
  have k4: "loaded P (st1\<lparr>m_flush := m_order st1\<rparr>)"
    by (rule keep) simp_all
  show ?case
  proof (cases "m_flush st1 = - 1")
    case True
    show ?thesis
    proof (cases "hash_check st2 lh")
      case ok: True
      then show ?thesis unfolding unfold using True k2 by simp
    next
      case bad: False
      have "loaded P (reload P st2)"
        using "1.IH"(1) [OF rs [symmetric] True st2_def bad] .
      then show ?thesis unfolding unfold using True bad by simp
    qed
  next
    case False
    show ?thesis
    proof (cases "m_flush st1 = - 2")
      case three: True
      then show ?thesis unfolding unfold using False k3 by simp
    next
      case two: False
      show ?thesis
      proof (cases "hash_check st1 lh")
        case ok: True
        then show ?thesis unfolding unfold using False two k4 by simp
      next
        case bad: False
        have "loaded P (reload P (st1\<lparr>m_flush := - 2\<rparr>))"
          using "1.IH"(2) [OF rs [symmetric] False two bad] .
        then show ?thesis unfolding unfold using False two bad by simp
      qed
    qed
  qed
qed

lemma reload_hash_inv: "hash_inv P (reload P st)"
  using reload_loaded [of P st] by (simp add: loaded_def)


lemma dirty_at_hash:
  assumes "dirty_at P key f st xs = Some (st1, ys)"
  shows "m_hash st1 = m_hash st XOR live_hash P xs XOR live_hash P ys \<and> m_map st1 = m_map st"
  using assms
proof (induction xs arbitrary: st1 ys)
  case Nil
  then show ?case by simp
next
  case (Cons item rest)
  show ?case
  proof (cases "fst item = key")
    case True
    obtain k ctrl v where item: "item = (k, ctrl, v)" by (cases item) auto
    show ?thesis
      using Cons.prems True
      by (auto simp: item dirty_def live_hash_Cons live_def entry_hash_def xor_order_def
          xor.assoc xor.commute xor.left_commute split: if_splits)
  next
    case False
    then obtain st2 rest1 where r: "dirty_at P key f st rest = Some (st2, rest1)"
      and res: "st1 = st2" "ys = item # rest1"
      using Cons.prems by (auto split: option.splits)
    from Cons.IH [OF r] show ?thesis
      by (simp add: res live_hash_Cons xor.assoc xor.commute xor.left_commute)
  qed
qed

lemma writer_index_hash_inv:
  assumes "hash_inv P (fst w)"
  shows "hash_inv P (fst (writer_index P key f w))"
proof -
  obtain st m where w: "w = (st, m)" by (cases w) auto
  show ?thesis
  proof (cases "dirty_at P key f st (m_map st)")
    case None
    then show ?thesis using assms by (simp add: writer_index_def w)
  next
    case (Some r)
    obtain st1 items where r: "r = (st1, items)" by (cases r) auto
    have "m_hash st1 = m_hash st XOR live_hash P (m_map st) XOR live_hash P items"
      using dirty_at_hash [OF Some [unfolded r]] by simp
    then have "m_hash st1 = live_hash P items"
      using assms by (simp add: w hash_inv_def)
    then show ?thesis by (simp add: writer_index_def w Some r hash_inv_def)
  qed
qed

lemma writer_add_hash_inv:
  assumes "hash_inv P (fst w)"
  shows "hash_inv P (fst (writer_add P key v0 f w))"
proof -
  obtain st m where w: "w = (st, m)" by (cases w) auto
  show ?thesis
  proof (cases "dirty_at P key f st (m_map st)")
    case None
    then show ?thesis
      using assms
      by (simp add: writer_add_def w hash_inv_def live_hash_snoc live_def null_control_def)
  next
    case (Some r)
    obtain st1 items where r: "r = (st1, items)" by (cases r) auto
    have "m_hash st1 = m_hash st XOR live_hash P (m_map st) XOR live_hash P items"
      using dirty_at_hash [OF Some [unfolded r]] by simp
    then have "m_hash st1 = live_hash P items"
      using assms by (simp add: w hash_inv_def)
    then show ?thesis by (simp add: writer_add_def w Some r hash_inv_def)
  qed
qed


lemma finalize_hash_inv:
  assumes inv: "hash_inv P st"
    and enc: "\<forall>it \<in> set (m_map st). block_count (item_bytes P (fst it) (snd (snd it))) \<noteq> 0"
    and room: "unat (m_order st) + length (m_map st) < 2 ^ 64"
    and fin: "finalize P st = Inr st'"
  shows "hash_inv P st'"
proof (cases "m_order st \<le> m_flush st")
  case True
  then show ?thesis using fin inv by (simp add: finalize_def)
next
  case go: False
  obtain st1 items where wd: "write_dirty P st [] (m_map st) = Inr (st1, items)"
    using fin go by (cases "write_dirty P st [] (m_map st)") (auto simp: finalize_def)
  have h1: "m_hash st1 = live_hash P items"
    using write_dirty_hash [OF wd _ enc room] inv by (simp add: hash_inv_def)
  define st2 where "st2 = st1\<lparr>m_map := items, m_data := view_flush (m_data st1)\<rparr>"
  obtain new_pos fm where gf: "get_free 1 (m_free st2) = Inr (new_pos, fm)"
    using fin go wd
    by (cases "get_free 1 (m_free st2)") (auto simp: finalize_def Let_def st2_def)
  define st3 where "st3 = st2\<lparr>m_free := fm, m_order := m_order st2 + 1\<rparr>"
  define trm where "trm = term_block (m_order st3) (m_hash st3)"
  obtain b v1 where wb: "write_block (cipher P) (m_data st3) (ucast new_pos) (layout_bytes trm) 0 = (b, v1)"
    by (cases "write_block (cipher P) (m_data st3) (ucast new_pos) (layout_bytes trm) 0") auto
  define st4 where "st4 = st3\<lparr>m_data := view_flush v1,
                                        m_free := add_free (m_lastf st3) 1 (m_free st3),
                                        m_lastf := new_pos,
                                        m_flush := m_order st3\<rparr>"
  have unfold: "finalize P st =
      (if b then (case promote_all (m_free st4) (m_map st4) of
                    (fm1, items1) \<Rightarrow> Inr (st4\<lparr>m_free := fm1, m_map := items1\<rparr>))
       else Inr (st3\<lparr>m_data := v1, m_order := m_order st3 - 1,
                                   m_error := m_error st3 OR 128,
                                   m_free := add_free new_pos 1 (m_free st3)\<rparr>))"
    using go wd gf wb
    unfolding finalize_def st4_def trm_def st3_def st2_def
    by (simp add: Let_def)
  show ?thesis
  proof (cases b)
    case True
    obtain fm1 items1 where pa: "promote_all (m_free st4) (m_map st4) = (fm1, items1)"
      by (cases "promote_all (m_free st4) (m_map st4)") auto
    have st': "st' = st4\<lparr>m_free := fm1, m_map := items1\<rparr>"
      using fin unfold True pa by simp
    have m4: "m_map st4 = items" by (simp add: st4_def st3_def st2_def)
    have "live_hash P items1 = live_hash P items"
      using promote_all_hash [of P "m_free st4" "m_map st4"] pa m4 by simp
    then show ?thesis
      using h1 by (simp add: hash_inv_def st' st4_def st3_def st2_def)
  next
    case False
    then have "st' = st3\<lparr>m_data := v1, m_order := m_order st3 - 1,
                                   m_error := m_error st3 OR 128,
                                   m_free := add_free new_pos 1 (m_free st3)\<rparr>"
      using fin unfold by simp
    then show ?thesis using h1 by (simp add: hash_inv_def st3_def st2_def)
  qed
qed


lemma umap_write_item:
  assumes "umap_write P st item = Inr (st1, item1)"
  shows "fst item1 = fst item \<and> snd (snd item1) = snd (snd item)"
proof -
  obtain k ctrl v where item: "item = (k, ctrl, v)" by (cases item) auto
  obtain st0 ctrl0 where d: "dirty P st (k, ctrl, v) = (st0, (k, ctrl0, v))"
    by (cases "order ctrl = 0") (simp_all add: dirty_def)
  show ?thesis
    using assms unfolding umap_write_def item d
    by (auto simp: Let_def split: sum.splits prod.splits bool.splits)
qed

lemma write_dirty_items:
  assumes "write_dirty P st done todo = Inr (st1, items)"
  shows "map (\<lambda>it. (fst it, snd (snd it))) items = map (\<lambda>it. (fst it, snd (snd it))) (done @ todo)"
  using assms
proof (induction todo arbitrary: st "done")
  case Nil
  then show ?case by simp
next
  case (Cons item rest)
  show ?case
  proof (cases "order (fst (snd item)) = 0")
    case False
    then have "write_dirty P st (done @ [item]) rest = Inr (st1, items)"
      using Cons.prems by simp
    from Cons.IH [OF this] show ?thesis by simp
  next
    case True
    obtain st2 item1 where w: "umap_write P st item = Inr (st2, item1)"
      using Cons.prems True by (cases "umap_write P st item") auto
    have "write_dirty P st2 (done @ [item1]) rest = Inr (st1, items)"
      using Cons.prems True w by simp
    from Cons.IH [OF this] umap_write_item [OF w] show ?thesis by simp
  qed
qed

lemma writer_close_hash_inv:
  assumes inv: "hash_inv P (fst w)"
    and enc: "\<forall>it \<in> set (m_map (fst w)). block_count (item_bytes P (fst it) (snd (snd it))) \<noteq> 0"
    and room: "unat (m_order (fst w)) + 2 * length (m_map (fst w)) < 2 ^ 64"
    and cl: "writer_close P flush_flag w = Inr st'"
  shows "hash_inv P st'"
proof -
  obtain st m where w: "w = (st, m)" by (cases w) auto
  define r where "r = (if m then write_dirty P st [] (m_map st) else Inr (st, m_map st))"
  obtain st1 items where r: "r = Inr (st1, items)"
    using cl by (cases r) (auto simp: writer_close_def w r_def)
  define st2 where "st2 = st1\<lparr>m_map := items\<rparr>"
  have res: "(if flush_flag then finalize P st2 else Inr st2) = Inr st'"
    using cl r by (auto simp: writer_close_def w r_def [symmetric] st2_def Let_def split: if_splits)
  have room0: "unat (m_order st) + length (m_map st) < 2 ^ 64" using room by (simp add: w)
  have facts: "m_hash st1 = live_hash P items \<and>
      map (\<lambda>it. (fst it, snd (snd it))) items = map (\<lambda>it. (fst it, snd (snd it))) (m_map st) \<and>
      unat (m_order st1) \<le> unat (m_order st) + length (m_map st)"
  proof (cases m)
    case True
    then have wd: "write_dirty P st [] (m_map st) = Inr (st1, items)" using r by (simp add: r_def)
    show ?thesis
      using write_dirty_hash [OF wd _ enc [unfolded w, simplified] room0]
        write_dirty_items [OF wd] inv
      by (simp add: w hash_inv_def)
  next
    case False
    then have "st1 = st" "items = m_map st" using r by (auto simp: r_def)
    then show ?thesis using inv by (simp add: w hash_inv_def)
  qed
  have inv2: "hash_inv P st2" using facts by (simp add: hash_inv_def st2_def)
  have "length (map (\<lambda>it. (fst it, snd (snd it))) items) =
        length (map (\<lambda>it. (fst it, snd (snd it))) (m_map st))"
    using facts by simp
  then have len: "length items = length (m_map st)" by simp
  have enc2: "\<forall>it \<in> set (m_map st2). block_count (item_bytes P (fst it) (snd (snd it))) \<noteq> 0"
  proof
    fix it assume "it \<in> set (m_map st2)"
    then have "(fst it, snd (snd it)) \<in> set (map (\<lambda>it. (fst it, snd (snd it))) items)"
      by (auto simp: st2_def)
    then have "(fst it, snd (snd it)) \<in> set (map (\<lambda>it. (fst it, snd (snd it))) (m_map st))"
      using facts by simp
    then obtain it0 where it0: "it0 \<in> set (m_map st)" "fst it0 = fst it" "snd (snd it0) = snd (snd it)"
      by (auto simp: image_iff)
    have "block_count (item_bytes P (fst it0) (snd (snd it0))) \<noteq> 0"
      using enc it0(1) by (simp add: w)
    then show "block_count (item_bytes P (fst it) (snd (snd it))) \<noteq> 0"
      by (simp add: it0)
  qed
  have room2: "unat (m_order st2) + length (m_map st2) < 2 ^ 64"
    using facts len room by (simp add: st2_def w)
  show ?thesis
  proof (cases flush_flag)
    case True
    then have "finalize P st2 = Inr st'" using res by simp
    from finalize_hash_inv [OF inv2 enc2 room2 this] show ?thesis .
  next
    case False
    then show ?thesis using res inv2 by simp
  qed
qed

end
